theory Spec2Isabelle
  imports Complex_Main "HOL-Library.Word"
begin

section \<open>binmerge: merging binary files with possible overlap\<close>

text \<open>
  A shallow embedding of \<^verbatim>\<open>binmerge.cpp\<close> (version 0.2.0). Bytes are \<open>8 word\<close>,
  \<^verbatim>\<open>std::size_t\<close> values are natural numbers, with the wrap-around of the unsigned
  subtractions written out where the source can reach it. Console output is not part of
  the model.
\<close>

type_synonym byte = "8 word"

datatype error = SystemError | OutOfRange

subsection \<open>MatchResult\<close>

record MatchResult =
  patternFound :: bool
  matchPosition :: nat
  patternSize :: nat
  bytesDiffering :: nat

definition noMatch :: MatchResult where
  \<comment> \<open>\<^verbatim>\<open>MatchResult{}\<close>: the default member initialisers\<close>
  "noMatch = \<lparr>patternFound = False, matchPosition = 0, patternSize = 0, bytesDiffering = 0\<rparr>"

definition overlapCount :: "MatchResult \<Rightarrow> nat" where
  "overlapCount r = matchPosition r + patternSize r"

definition size_t_sub :: "nat \<Rightarrow> nat \<Rightarrow> nat" where
  \<comment> \<open>subtraction of two \<^verbatim>\<open>std::size_t\<close> values (64 bit): it wraps below zero\<close>
  "size_t_sub a b = (if b \<le> a then a - b else a + 2 ^ 64 - b)"

definition quota :: "MatchResult \<Rightarrow> rat" where
  \<comment> \<open>the quotient of \<^verbatim>\<open>quota()\<close> before it is rounded, as an exact rational number; the
      \<^verbatim>\<open>double\<close> that the source computes and compares is \<open>quota_double\<close> below\<close>
  "quota r =
     (if \<not> patternFound r \<or> overlapCount r = 0 then 0
      else of_nat (size_t_sub (overlapCount r) (bytesDiffering r)) / of_nat (overlapCount r))"

subsection \<open>The quotient in binary64\<close>

text \<open>
  \<^verbatim>\<open>quota()\<close> converts the two \<^verbatim>\<open>std::size_t\<close> values to \<^verbatim>\<open>double\<close> and divides them, and
  \<open>main\<close> compares such doubles with each other and with the literal \<^verbatim>\<open>0.7\<close>. A finite
  double is kept here as the rational number it stands for. The conversion and the
  division round to the nearest double with 53 significant bits, ties to the even
  significand (the default rounding mode). The operands are integers below \<open>2^64\<close>, so
  every value is 0 or in the normal range.
\<close>

fun bitlength :: "nat \<Rightarrow> nat" where
  \<comment> \<open>the number of binary digits\<close>
  "bitlength n = (if n = 0 then 0 else Suc (bitlength (n div 2)))"

definition round_half_even :: "nat \<Rightarrow> nat \<Rightarrow> nat" where
  \<comment> \<open>the integer nearest to \<open>num / den\<close>, the even one of two that are equally near\<close>
  "round_half_even num den =
     (let k = num div den; r = num mod den
      in if 2 * r < den then k
         else if den < 2 * r then k + 1
         else if even k then k else k + 1)"

definition double_of_nat :: "nat \<Rightarrow> nat" where
  \<comment> \<open>\<^verbatim>\<open>static_cast<double>\<close> of a \<^verbatim>\<open>std::size_t\<close>, and its implicit conversion in the division:
      exact below \<open>2^53\<close>, otherwise rounded to 53 significant bits\<close>
  "double_of_nat n = (let t = bitlength n - 53 in round_half_even n (2 ^ t) * 2 ^ t)"

definition double_div :: "nat \<Rightarrow> nat \<Rightarrow> rat" where
  \<comment> \<open>the quotient of two doubles with the integer values \<open>p\<close> and \<open>q\<close>: with
      \<open>2^e \<le> p / q < 2^(e + 1)\<close> it is \<open>p / q\<close> rounded to a multiple of \<open>2^(e - 52)\<close>. The
      source never divides by 0 (\<^verbatim>\<open>quota()\<close> returns before); the value 0 stands there.\<close>
  "double_div p q =
     (if p = 0 \<or> q = 0 then 0
      else let e0 = int (bitlength p) - int (bitlength q);
               e = (if (if 0 \<le> e0 then q * 2 ^ nat e0 \<le> p else q \<le> p * 2 ^ nat (- e0))
                    then e0 else e0 - 1);
               s = 52 - e
           in if 0 \<le> s then of_nat (round_half_even (p * 2 ^ nat s) q) / 2 ^ nat s
              else of_nat (round_half_even p (q * 2 ^ nat (- s))) * 2 ^ nat (- s))"

definition double_0_7 :: rat where
  \<comment> \<open>the literal \<^verbatim>\<open>0.7\<close>: the double nearest to \<open>7 / 10\<close>, which is
      \<open>3152519739159347 / 2^52\<close> (lemma \<open>double_0_7_literal\<close>)\<close>
  "double_0_7 = 3152519739159347 / 4503599627370496"

definition quota_double :: "MatchResult \<Rightarrow> rat" where
  \<comment> \<open>\<^verbatim>\<open>quota()\<close>: the value of the \<^verbatim>\<open>double\<close> that it returns\<close>
  "quota_double r =
     (if \<not> patternFound r \<or> overlapCount r = 0 then 0
      else double_div (double_of_nat (size_t_sub (overlapCount r) (bytesDiffering r)))
             (double_of_nat (overlapCount r)))"

subsection \<open>Input file streams\<close>

text \<open>
  A \<^verbatim>\<open>std::ifstream\<close> is the file's bytes, the get position of its buffer, the state
  flags and the count of the last unformatted read. \<open>fault\<close> is the offset of a byte the
  device cannot deliver (\<open>None\<close> for a healthy file): a read that touches it makes the
  file buffer throw, which \<^verbatim>\<open>istream::read\<close> catches by setting \<^verbatim>\<open>badbit\<close> and
  extracting nothing.
\<close>

record istream =
  content :: "byte list"
  gpos :: nat
  eofbit :: bool
  failbit :: bool
  badbit :: bool
  gcount :: nat
  fault :: "nat option"

definition ifstream_open :: "byte list \<Rightarrow> istream" where
  "ifstream_open bs =
     \<lparr>content = bs, gpos = 0, eofbit = False, failbit = False, badbit = False,
      gcount = 0, fault = None\<rparr>"

definition fail :: "istream \<Rightarrow> bool" where
  \<comment> \<open>\<^verbatim>\<open>fail()\<close>; a stream converts to \<^verbatim>\<open>true\<close> exactly when \<^verbatim>\<open>!fail()\<close>\<close>
  "fail s \<longleftrightarrow> failbit s \<or> badbit s"

definition good :: "istream \<Rightarrow> bool" where
  "good s \<longleftrightarrow> \<not> eofbit s \<and> \<not> failbit s \<and> \<not> badbit s"

definition clear :: "istream \<Rightarrow> istream" where
  "clear s = s\<lparr>eofbit := False, failbit := False, badbit := False\<rparr>"

definition seekg :: "nat \<Rightarrow> istream \<Rightarrow> istream" where
  \<comment> \<open>\<^verbatim>\<open>seekg(pos)\<close>: clears \<^verbatim>\<open>eofbit\<close> first; a file may be positioned past its end\<close>
  "seekg p s =
     (let s = s\<lparr>eofbit := False\<rparr>
      in if fail s then s\<lparr>failbit := True\<rparr> else s\<lparr>gpos := p\<rparr>)"

definition seekg_end :: "int \<Rightarrow> istream \<Rightarrow> istream" where
  \<comment> \<open>\<^verbatim>\<open>seekg(off, std::ios_base::end)\<close>: a position before the first byte is refused,
      the stream fails and the get position stays where it was\<close>
  "seekg_end off s =
     (let s = s\<lparr>eofbit := False\<rparr>
      in if fail s then s\<lparr>failbit := True\<rparr>
         else if int (length (content s)) + off < 0 then s\<lparr>failbit := True\<rparr>
         else s\<lparr>gpos := nat (int (length (content s)) + off)\<rparr>)"

definition hits_fault :: "istream \<Rightarrow> nat \<Rightarrow> bool" where
  "hits_fault s k = (case fault s of None \<Rightarrow> False | Some f \<Rightarrow> gpos s \<le> f \<and> f < gpos s + k)"

definition read :: "nat \<Rightarrow> istream \<Rightarrow> byte list \<times> istream" where
  \<comment> \<open>\<^verbatim>\<open>read(buf, n)\<close>: the bytes stored and the stream afterwards. A stream that is not
      good extracts nothing and fails; reaching the end before \<open>n\<close> bytes sets
      \<^verbatim>\<open>eofbit\<close> and \<^verbatim>\<open>failbit\<close>.\<close>
  "read n s =
     (if \<not> good s then ([], s\<lparr>failbit := True, gcount := 0\<rparr>)
      else let k = min n (length (content s) - gpos s)
           in if hits_fault s k then ([], s\<lparr>badbit := True, gcount := 0\<rparr>)
              else (take k (drop (gpos s) (content s)),
                    s\<lparr>gpos := gpos s + k, gcount := k,
                      eofbit := k < n, failbit := k < n\<rparr>))"

subsection \<open>searchInFile\<close>

definition blockSize :: nat where
  "blockSize = 4096"

fun starts_with :: "'a list \<Rightarrow> 'a list \<Rightarrow> bool" where
  "starts_with xs [] = True"
| "starts_with [] (p # ps) = False"
| "starts_with (x # xs) (p # ps) = (x = p \<and> starts_with xs ps)"

fun std_search :: "'a list \<Rightarrow> 'a list \<Rightarrow> nat" where
  \<comment> \<open>\<^verbatim>\<open>std::search(first, last, p_first, p_last) - first\<close>: the index of the first
      occurrence in the range, the length of the range when there is none\<close>
  "std_search [] pat = 0"
| "std_search (x # xs) pat = (if starts_with (x # xs) pat then 0 else Suc (std_search xs pat))"

definition write_at :: "'a list \<Rightarrow> nat \<Rightarrow> 'a list \<Rightarrow> 'a list" where
  \<comment> \<open>storing \<open>data\<close> into an array from index \<open>off\<close> on\<close>
  "write_at buf off data = take off buf @ data @ drop (off + length data) buf"

definition stop_index :: "nat \<Rightarrow> nat \<Rightarrow> nat \<Rightarrow> nat" where
  \<comment> \<open>\<^verbatim>\<open>std::min(bytesReadPreviously + pattern.size() - 1, realBufferSize)\<close>\<close>
  "stop_index brp psize rbs = min (size_t_sub (brp + psize) 1) rbs"

record search_state =
  fstream :: istream
  buffer :: "byte list"
  bytesReadPreviously :: nat
  realBufferSize :: nat
  position :: nat

partial_function (option)
  searchLoop :: "nat \<Rightarrow> byte list \<Rightarrow> search_state \<Rightarrow> (error + MatchResult \<times> istream) option"
where
  "searchLoop bs pat st =
     (if \<not> fail (fstream st) \<or> realBufferSize st \<ge> length pat then
        (let (data, f) = read bs (fstream st);
             buf = write_at (buffer st) (bytesReadPreviously st) data;
             bytesRead = gcount f
         in if bytesRead < bs \<and> \<not> eofbit f then Some (Inl SystemError)
            else
              (let rbs = bytesReadPreviously st + bytesRead;
                   stop = stop_index (bytesReadPreviously st) (length pat) rbs;
                   result = std_search (take stop buf) pat
               in if result \<noteq> stop then
                    Some (Inr (\<lparr>patternFound = True, matchPosition = position st + result,
                                patternSize = length pat, bytesDiffering = 0\<rparr>, f))
                  else
                    searchLoop bs pat
                      \<lparr>fstream = f,
                       buffer = drop (bytesReadPreviously st) buf
                                @ drop (2 * bs - bytesReadPreviously st) buf,
                       bytesReadPreviously = bytesRead,
                       realBufferSize = rbs,
                       position = position st + bytesReadPreviously st\<rparr>))
      else Some (Inr (noMatch, fstream st)))"

declare searchLoop.simps [code]

definition searchInFile_blk ::
  "nat \<Rightarrow> byte list \<Rightarrow> istream \<Rightarrow> byte list \<Rightarrow> nat \<Rightarrow> (error + MatchResult \<times> istream) option"
where
  \<comment> \<open>\<open>searchInFile\<close> with the block size \<open>bs\<close> and the initial content \<open>buf0\<close> of the
      uninitialised array of \<open>2 * bs\<close> bytes as parameters\<close>
  "searchInFile_blk bs buf0 file0 pat pos =
     (let (data, f) = read bs (seekg pos (clear file0));
          buf = write_at buf0 0 data;
          bytesReadPreviously = gcount f
      in if bytesReadPreviously < bs \<and> \<not> eofbit f then Some (Inl SystemError)
         else searchLoop bs pat
                \<lparr>fstream = f, buffer = buf, bytesReadPreviously = bytesReadPreviously,
                 realBufferSize = bytesReadPreviously, position = pos\<rparr>)"

definition searchInFile ::
  "istream \<Rightarrow> byte list \<Rightarrow> nat \<Rightarrow> (error + MatchResult \<times> istream) option"
where
  "searchInFile file0 pat pos =
     searchInFile_blk blockSize (replicate (2 * blockSize) 0) file0 pat pos"

subsection \<open>compareFiles\<close>

definition count_differences :: "byte list \<Rightarrow> byte list \<Rightarrow> nat" where
  \<comment> \<open>the \<^verbatim>\<open>for\<close> loop over the first \<open>min\<close> bytes of the two buffers\<close>
  "count_differences b1 b2 = length (filter (\<lambda>(x, y). x \<noteq> y) (zip b1 b2))"

function compareLoop ::
  "istream \<Rightarrow> istream \<Rightarrow> nat \<Rightarrow> nat \<Rightarrow> error + nat \<times> istream \<times> istream"
where
  "compareLoop file1 file2 bytesTotal bytesDifferent =
     (let (buffer1, f1) = read blockSize file1;
          (buffer2, f2) = read blockSize file2;
          bytesRead1 = gcount f1;
          bytesRead2 = gcount f2
      in if (bytesRead1 < blockSize \<and> \<not> eofbit f1) \<or> (bytesRead2 < blockSize \<and> \<not> eofbit f2)
         then Inl SystemError
         else
           (let numberOfBytes = min bytesRead1 bytesRead2;
                total = bytesTotal + numberOfBytes;
                different = bytesDifferent
                  + count_differences (take numberOfBytes buffer1) (take numberOfBytes buffer2)
            in if \<not> fail f1 \<and> \<not> fail f2 then compareLoop f1 f2 total different
               else Inr (different, f1, f2)))"
  by pat_completeness auto

termination compareLoop
proof (relation "measure (\<lambda>(f1, f2, t, d). length (content f1) - gpos f1)", simp, clarsimp)
  fix file1 :: istream and xa y
  assume "(xa, y) = read blockSize file1" "\<not> fail y"
  then show "length (content y) - gpos y < length (content file1) - gpos file1"
    by (cases "good file1";
        cases "hits_fault file1 (min blockSize (length (content file1) - gpos file1))")
       (auto simp: blockSize_def read_def fail_def Let_def)
qed

definition compareFiles :: "istream \<Rightarrow> istream \<Rightarrow> error + nat \<times> istream \<times> istream" where
  \<comment> \<open>the number of differing bytes, and the two streams as the call leaves them\<close>
  "compareFiles file1 file2 = compareLoop file1 file2 0 0"

subsection \<open>The search for the best match in \<open>main\<close>\<close>

definition rdbuf_rest :: "istream \<Rightarrow> error + byte list \<times> istream" where
  \<comment> \<open>a vector built from \<^verbatim>\<open>std::istreambuf_iterator\<close>: every byte from the get position
      of the file buffer to the end, whatever the state flags of the stream say\<close>
  "rdbuf_rest s =
     (let n = length (content s) - gpos s
      in if hits_fault s n then Inl SystemError
         else Inr (drop (gpos s) (content s), s\<lparr>gpos := gpos s + n\<rparr>))"

definition extractPattern :: "istream \<Rightarrow> error + byte list \<times> istream" where
  \<comment> \<open>\<^verbatim>\<open>file1.clear(); file1.seekg(-20, std::ios_base::end);\<close> and the vector\<close>
  "extractPattern file1 = rdbuf_rest (seekg_end (- 20) (clear file1))"

partial_function (option)
  refineLoop :: "bool \<Rightarrow> byte list \<Rightarrow> istream \<times> istream \<times> MatchResult \<times> MatchResult
     \<Rightarrow> (error + MatchResult \<times> istream \<times> istream) option"
where
  \<comment> \<open>\<^verbatim>\<open>while (lastResult.patternFound)\<close>; the state is
      \<open>(file1, file2, result, lastResult)\<close>, \<open>best\<close> is the option \<^verbatim>\<open>--best\<close>\<close>
  "refineLoop best pat st =
     (case st of (file1, file2, result, lastResult) \<Rightarrow>
        if patternFound lastResult then
          (let f1 = seekg_end (- int (overlapCount lastResult)) (clear file1);
               f2 = seekg 0 (clear file2)
           in case compareFiles f1 f2 of
                Inl e \<Rightarrow> Some (Inl e)
              | Inr (d, f1', f2') \<Rightarrow>
                  (let last' = lastResult\<lparr>bytesDiffering := d\<rparr>;
                       result' = (if quota_double last' > quota_double result then last' else result)
                   in if quota_double result' > double_0_7 \<or> \<not> best
                      then Some (Inr (result', f1', f2'))
                      else
                        (case searchInFile f2' pat (matchPosition last' + 1) of
                           None \<Rightarrow> None
                         | Some (Inl e) \<Rightarrow> Some (Inl e)
                         | Some (Inr (next, f2'')) \<Rightarrow>
                             refineLoop best pat (f1', f2'', result', next))))
        else Some (Inr (result, file1, file2)))"

declare refineLoop.simps [code]

definition refine ::
  "bool \<Rightarrow> istream \<Rightarrow> istream \<Rightarrow> byte list \<Rightarrow> (error + MatchResult \<times> istream \<times> istream) option"
where
  \<comment> \<open>the first search and the loop after it\<close>
  "refine best file1 file2 pat =
     (case searchInFile file2 pat 0 of
        None \<Rightarrow> None
      | Some (Inl e) \<Rightarrow> Some (Inl e)
      | Some (Inr (lastResult, f2)) \<Rightarrow> refineLoop best pat (file1, f2, noMatch, lastResult))"

definition processPair ::
  "bool \<Rightarrow> istream \<Rightarrow> istream \<Rightarrow> (error + MatchResult \<times> istream \<times> istream) option"
where
  \<comment> \<open>one round of the \<^verbatim>\<open>for\<close> loop of \<open>main\<close>, from the extraction of the pattern to
      the result that is pushed, for the predecessor \<open>file1\<close> and the just opened \<open>file2\<close>\<close>
  "processPair best file1 file2 =
     (case extractPattern file1 of
        Inl e \<Rightarrow> Some (Inl e)
      | Inr (pat, f1) \<Rightarrow> refine best f1 file2 pat)"

type_synonym filesystem = "string \<Rightarrow> byte list option"

fun scanLoop ::
  "filesystem \<Rightarrow> bool \<Rightarrow> istream \<Rightarrow> string list \<Rightarrow> MatchResult list
     \<Rightarrow> (error + MatchResult list option) option"
where
  \<comment> \<open>the \<^verbatim>\<open>for\<close> loop of \<open>main\<close> over the file names after the first;
      \<open>Inr None\<close> is \<^verbatim>\<open>return 1\<close> (a file failed to open)\<close>
  "scanLoop fs best file1 [] searchResults = Some (Inr (Some searchResults))"
| "scanLoop fs best file1 (name # names) searchResults =
     (case extractPattern file1 of
        Inl e \<Rightarrow> Some (Inl e)
      | Inr (pat, f1) \<Rightarrow>
          (case fs name of
             None \<Rightarrow> Some (Inr None)
           | Some bytes \<Rightarrow>
               (case refine best f1 (ifstream_open bytes) pat of
                  None \<Rightarrow> None
                | Some (Inl e) \<Rightarrow> Some (Inl e)
                | Some (Inr (result, f1', f2)) \<Rightarrow>
                    scanLoop fs best f2 names (searchResults @ [result]))))"

subsection \<open>mergeFiles\<close>

text \<open>
  The output stream is the bytes written and its \<^verbatim>\<open>failbit\<close>. The inserter
  \<^verbatim>\<open>operator<<(streambuf*)\<close> sets \<^verbatim>\<open>failbit\<close> on the output stream when it inserts
  no character, and an output stream that is not good inserts nothing.
\<close>

record ostream =
  written :: "byte list"
  ofailbit :: bool

definition insert_rdbuf :: "ostream \<Rightarrow> istream \<Rightarrow> ostream" where
  \<comment> \<open>\<^verbatim>\<open>outputFile << inputFile.rdbuf()\<close>\<close>
  "insert_rdbuf out inp =
     (if ofailbit out then out
      else let data = drop (gpos inp) (content inp)
           in if data = [] then out\<lparr>ofailbit := True\<rparr>
              else out\<lparr>written := written out @ data\<rparr>)"

function mergeLoop ::
  "filesystem \<Rightarrow> string list \<Rightarrow> MatchResult list \<Rightarrow> nat \<Rightarrow> ostream \<Rightarrow> error + ostream"
where
  \<comment> \<open>\<^verbatim>\<open>for (int i = 0; i < fileNames.size(); ++i)\<close>; reading \<open>searchResults\<close> out of
      range is undefined in the source and \<open>OutOfRange\<close> here\<close>
  "mergeLoop fs fileNames searchResults i out =
     (if i < length fileNames then
        (case fs (fileNames ! i) of
           None \<Rightarrow> Inr out
         | Some bytes \<Rightarrow>
             if 0 < i \<and> length searchResults \<le> i - 1 then Inl OutOfRange
             else
               (let inputFile = ifstream_open bytes;
                    inputFile =
                      (if 0 < i \<and> patternFound (searchResults ! (i - 1))
                       then seekg (overlapCount (searchResults ! (i - 1))) inputFile
                       else inputFile)
                in mergeLoop fs fileNames searchResults (i + 1) (insert_rdbuf out inputFile)))
      else Inr out)"
  by pat_completeness auto
termination
  by (relation "measure (\<lambda>(fs, fileNames, searchResults, i, out). length fileNames - i)") auto

definition mergeFiles ::
  "filesystem \<Rightarrow> (string \<Rightarrow> bool) \<Rightarrow> string list \<Rightarrow> MatchResult list \<Rightarrow> string
     \<Rightarrow> error + byte list option"
where
  \<comment> \<open>the bytes of the output file after the call, \<open>None\<close> when it could not be opened;
      \<open>writable\<close> tells which paths open for writing. Opening the output truncates the
      file under its path before any input is opened, so the inputs are read from
      \<open>fs(outputFileName \<mapsto> [])\<close>: an input under the path of the output is read as the
      empty file it is at that moment (what it shows of the bytes inserted later depends
      on when the stream's buffer is flushed, and is left out). The theorems about a
      merge take the output path to be none of the input paths.\<close>
  "mergeFiles fs writable fileNames searchResults outputFileName =
     (if \<not> writable outputFileName then Inr None
      else case mergeLoop (fs(outputFileName \<mapsto> [])) fileNames searchResults 0
                  \<lparr>written = [], ofailbit = False\<rparr> of
             Inl e \<Rightarrow> Inl e
           | Inr out \<Rightarrow> Inr (Some (written out)))"

subsection \<open>main\<close>

definition main ::
  "filesystem \<Rightarrow> (string \<Rightarrow> bool) \<Rightarrow> bool \<Rightarrow> string \<Rightarrow> string list \<Rightarrow> char
     \<Rightarrow> (error + int \<times> byte list option) option"
where
  \<comment> \<open>the exit status and the bytes of the output file (\<open>None\<close>: no output file written);
      \<open>Inl\<close> is an exception that nothing catches, \<open>None\<close> a run that never ends.
      \<open>best\<close>, \<open>outputName\<close> and \<open>fileNames\<close> are the parsed arguments, \<open>decision\<close> the
      character read from the standard input.\<close>
  "main fs writable best outputName fileNames decision =
     (case fileNames of
        [] \<Rightarrow> Some (Inl OutOfRange)
      | name # names \<Rightarrow>
          (case fs name of
             None \<Rightarrow> Some (Inr (1, None))
           | Some bytes \<Rightarrow>
               (case scanLoop fs best (ifstream_open bytes) names [] of
                  None \<Rightarrow> None
                | Some (Inl e) \<Rightarrow> Some (Inl e)
                | Some (Inr None) \<Rightarrow> Some (Inr (1, None))
                | Some (Inr (Some searchResults)) \<Rightarrow>
                    if decision = CHR ''y'' \<or> decision = CHR ''Y'' then
                      (case mergeFiles fs writable fileNames searchResults outputName of
                         Inl e \<Rightarrow> Some (Inl e)
                       | Inr out \<Rightarrow> Some (Inr (0, out)))
                    else Some (Inr (0, None)))))"

section \<open>Specification and proof vocabulary\<close>

text \<open>
  The in-memory reference search, the parts of one round of the scan loop, its invariant
  and its measure.
\<close>

definition outcome :: "(error + MatchResult \<times> 'a) option \<Rightarrow> (error + MatchResult) option" where
  "outcome r = map_option (map_sum id fst) r"

definition search_measure :: "byte list \<Rightarrow> search_state \<Rightarrow> nat" where
  "search_measure pat st =
     (let f = fstream st in
      if good f then 4 + (length (content f) - gpos f)
      else if \<not> fail f then 3
      else if 0 < bytesReadPreviously st then 2
      else if length pat \<le> realBufferSize st then 1 else 0)"

definition next_state :: "nat \<Rightarrow> search_state \<Rightarrow> search_state" where
  "next_state bs st =
     (let (data, f) = read bs (fstream st);
          buf = write_at (buffer st) (bytesReadPreviously st) data
      in \<lparr>fstream = f,
          buffer = drop (bytesReadPreviously st) buf @ drop (2 * bs - bytesReadPreviously st) buf,
          bytesReadPreviously = gcount f,
          realBufferSize = bytesReadPreviously st + gcount f,
          position = position st + bytesReadPreviously st\<rparr>)"

definition stop_of :: "nat \<Rightarrow> byte list \<Rightarrow> search_state \<Rightarrow> nat" where
  "stop_of bs pat st =
     stop_index (bytesReadPreviously st) (length pat)
       (bytesReadPreviously st + gcount (snd (read bs (fstream st))))"

definition search_window :: "nat \<Rightarrow> byte list \<Rightarrow> search_state \<Rightarrow> byte list" where
  "search_window bs pat st =
     take (stop_of bs pat st)
       (write_at (buffer st) (bytesReadPreviously st) (fst (read bs (fstream st))))"

definition short_read :: "nat \<Rightarrow> istream \<Rightarrow> bool" where
  "short_read bs s \<longleftrightarrow> gcount (snd (read bs s)) < bs \<and> \<not> eofbit (snd (read bs s))"

definition enters :: "byte list \<Rightarrow> search_state \<Rightarrow> bool" where
  "enters pat st \<longleftrightarrow> \<not> fail (fstream st) \<or> length pat \<le> realBufferSize st"

definition occurs_at :: "'a list \<Rightarrow> 'a list \<Rightarrow> nat \<Rightarrow> bool" where
  "occurs_at S P i \<longleftrightarrow> i + length P \<le> length S \<and> take (length P) (drop i S) = P"

function memSearch :: "'a list \<Rightarrow> 'a list \<Rightarrow> nat \<Rightarrow> nat option" where
  "memSearch S P i =
     (if length S < i + length P then None
      else if occurs_at S P i then Some i
      else memSearch S P (Suc i))"
  by pat_completeness auto
termination
  by (relation "measure (\<lambda>(S, P, i). Suc (length S) - i)") auto

definition search_result :: "byte list \<Rightarrow> nat option \<Rightarrow> MatchResult" where
  "search_result P r =
     (case r of
        None \<Rightarrow> noMatch
      | Some m \<Rightarrow> \<lparr>patternFound = True, matchPosition = m, patternSize = length P,
                    bytesDiffering = 0\<rparr>)"

definition search_inv :: "nat \<Rightarrow> byte list \<Rightarrow> search_state \<Rightarrow> bool" where
  "search_inv bs S st \<longleftrightarrow>
     content (fstream st) = S \<and> \<not> badbit (fstream st) \<and>
     gpos (fstream st) = position st + bytesReadPreviously st \<and>
     length (buffer st) = 2 * bs \<and> bytesReadPreviously st \<le> bs \<and>
     bytesReadPreviously st \<le> length S - position st \<and>
     take (bytesReadPreviously st) (buffer st) = take (bytesReadPreviously st) (drop (position st) S) \<and>
     (if good (fstream st) then bytesReadPreviously st = bs
      else eofbit (fstream st) \<and> failbit (fstream st) \<and>
           bytesReadPreviously st = length S - position st \<and>
           bytesReadPreviously st \<le> realBufferSize st)"

definition fresh :: "nat \<Rightarrow> byte list \<Rightarrow> search_state \<Rightarrow> nat" where
  "fresh bs S st = (if good (fstream st)
                 then min bs (length S - (position st + bytesReadPreviously st)) else 0)"

definition occurrences :: "byte list \<Rightarrow> byte list \<Rightarrow> nat list" where
  \<comment> \<open>every offset at which the pattern occurs, in ascending order\<close>
  "occurrences B pat = filter (occurs_at B pat) [0..<Suc (length B)]"

definition candidate :: "byte list \<Rightarrow> byte list \<Rightarrow> byte list \<Rightarrow> nat \<Rightarrow> MatchResult" where
  \<comment> \<open>the occurrence at offset \<open>m\<close> of the successor \<open>B\<close>, scored against the last
      \<open>m + |pat|\<close> bytes of the predecessor \<open>A\<close>\<close>
  "candidate A B pat m =
     \<lparr>patternFound = True, matchPosition = m, patternSize = length pat,
      bytesDiffering = count_differences (drop (length A - (m + length pat)) A) B\<rparr>"

fun refineCands ::
  "bool \<Rightarrow> byte list \<Rightarrow> byte list \<Rightarrow> byte list \<Rightarrow> MatchResult \<Rightarrow> nat list
     \<Rightarrow> error + MatchResult"
where
  \<comment> \<open>the refinement over the list of occurrences still to be examined\<close>
  "refineCands best A B pat result [] = Inr result"
| "refineCands best A B pat result (m # ms) =
     (if length A < m + length pat then Inl SystemError
      else let result' = (if quota_double (candidate A B pat m) > quota_double result
                          then candidate A B pat m else result)
           in if quota_double result' > double_0_7 \<or> \<not> best then Inr result'
              else refineCands best A B pat result' ms)"

definition any_path :: "string \<Rightarrow> bool" where
  \<comment> \<open>every path opens for writing\<close>
  "any_path p = True"

definition no_path :: "string \<Rightarrow> bool" where
  \<comment> \<open>no path opens for writing\<close>
  "no_path p = False"

definition result_ok :: "MatchResult \<Rightarrow> bool" where
  \<comment> \<open>the invariant of a result of the search and compare phase\<close>
  "result_ok r \<longleftrightarrow>
     (if patternFound r then 0 < overlapCount r \<and> bytesDiffering r \<le> overlapCount r
      else r = noMatch)"

section \<open>The scan loop of searchInFile\<close>

lemma read_not_good: "\<not> good s \<Longrightarrow> read n s = ([], s\<lparr>failbit := True, gcount := 0\<rparr>)"
  by (simp add: read_def)

lemma read_fault:
  "good s \<Longrightarrow> hits_fault s (min n (length (content s) - gpos s))
     \<Longrightarrow> read n s = ([], s\<lparr>badbit := True, gcount := 0\<rparr>)"
  by (simp add: read_def)

lemma read_ok:
  "good s \<Longrightarrow> \<not> hits_fault s (min n (length (content s) - gpos s))
     \<Longrightarrow> k = min n (length (content s) - gpos s)
     \<Longrightarrow> read n s = (take k (drop (gpos s) (content s)),
           s\<lparr>gpos := gpos s + k, gcount := k, eofbit := k < n, failbit := k < n\<rparr>)"
  by (simp add: read_def Let_def)

lemma searchLoop_exit:
  "\<not> enters pat st \<Longrightarrow> searchLoop bs pat st = Some (Inr (noMatch, fstream st))"
  by (subst searchLoop.simps) (simp add: enters_def)

lemma searchLoop_throw:
  "enters pat st \<Longrightarrow> short_read bs (fstream st)
     \<Longrightarrow> searchLoop bs pat st = Some (Inl SystemError)"
  by (subst searchLoop.simps) (auto simp: enters_def short_read_def split: prod.splits)

lemma searchLoop_found:
  "enters pat st \<Longrightarrow> \<not> short_read bs (fstream st)
     \<Longrightarrow> std_search (search_window bs pat st) pat \<noteq> stop_of bs pat st
     \<Longrightarrow> searchLoop bs pat st =
           Some (Inr (\<lparr>patternFound = True,
                       matchPosition = position st + std_search (search_window bs pat st) pat,
                       patternSize = length pat, bytesDiffering = 0\<rparr>, fstream (next_state bs st)))"
  by (subst searchLoop.simps)
     (auto simp: enters_def short_read_def search_window_def stop_of_def next_state_def Let_def
           split: prod.splits)

lemma searchLoop_next:
  "enters pat st \<Longrightarrow> \<not> short_read bs (fstream st)
     \<Longrightarrow> std_search (search_window bs pat st) pat = stop_of bs pat st
     \<Longrightarrow> searchLoop bs pat st = searchLoop bs pat (next_state bs st)"
  by (subst searchLoop.simps)
     (auto simp: enters_def short_read_def search_window_def stop_of_def next_state_def Let_def
           split: prod.splits)

lemma search_measure_decreases:
  assumes "pat \<noteq> []" "0 < bs" "enters pat st" "\<not> short_read bs (fstream st)"
  shows "search_measure pat (next_state bs st) < search_measure pat st"
proof (cases "good (fstream st)")
  case True
  show ?thesis
  proof (cases "hits_fault (fstream st) (min bs (length (content (fstream st)) - gpos (fstream st)))")
    case True
    with \<open>good (fstream st)\<close> assms show ?thesis
      by (auto simp: short_read_def read_fault good_def)
  next
    case False
    show ?thesis using \<open>good (fstream st)\<close> assms
      by (auto simp: search_measure_def next_state_def read_ok[OF True False refl]
            good_def fail_def Let_def min_def)
  qed
next
  case False
  then show ?thesis using assms
    by (auto simp: search_measure_def next_state_def read_not_good short_read_def enters_def
          good_def fail_def Let_def)
qed

lemma searchLoop_terminates:
  assumes "pat \<noteq> []" "0 < bs"
  shows "\<exists>y. searchLoop bs pat st = Some y"
proof (induction "search_measure pat st" arbitrary: st rule: less_induct)
  case less
  consider "\<not> enters pat st" | "enters pat st" "short_read bs (fstream st)"
    | "enters pat st" "\<not> short_read bs (fstream st)"
      "std_search (search_window bs pat st) pat \<noteq> stop_of bs pat st"
    | "enters pat st" "\<not> short_read bs (fstream st)"
      "std_search (search_window bs pat st) pat = stop_of bs pat st"
    by blast
  then show ?case
  proof cases
    case 1
    then show ?thesis by (simp add: searchLoop_exit)
  next
    case 2
    then show ?thesis by (simp add: searchLoop_throw)
  next
    case 3
    then show ?thesis by (simp add: searchLoop_found)
  next
    case 4
    from less[OF search_measure_decreases[OF assms 4(1,2)]] searchLoop_next[OF 4]
    show ?thesis by simp
  qed
qed

lemma searchInFile_terminates:
  assumes "pat \<noteq> []"
  shows "\<exists>y. searchInFile file0 pat pos = Some y"
  using searchLoop_terminates[OF assms, of blockSize]
  by (auto simp: searchInFile_def searchInFile_blk_def blockSize_def Let_def split: prod.splits)


declare memSearch.simps [simp del]

lemma starts_with_iff: "starts_with xs P \<longleftrightarrow> length P \<le> length xs \<and> take (length P) xs = P"
  by (induction xs P rule: starts_with.induct) auto

lemma starts_with_drop:
  "P \<noteq> [] \<Longrightarrow> starts_with (drop j S) P \<longleftrightarrow> occurs_at S P j"
  by (cases P) (auto simp: starts_with_iff occurs_at_def)

lemma std_search_le: "std_search xs P \<le> length xs"
  by (induction xs) auto

lemma std_search_found:
  "std_search xs P < length xs \<Longrightarrow> starts_with (drop (std_search xs P) xs) P"
  by (induction xs) (auto split: if_splits)

lemma std_search_first:
  "j < std_search xs P \<Longrightarrow> \<not> starts_with (drop j xs) P"
proof (induction xs arbitrary: j)
  case Nil
  then show ?case by simp
next
  case (Cons x xs)
  then show ?case by (cases j) (auto split: if_splits)
qed

lemma memSearch_skip:
  "i \<le> i' \<Longrightarrow> (\<And>j. i \<le> j \<Longrightarrow> j < i' \<Longrightarrow> \<not> occurs_at S P j)
     \<Longrightarrow> memSearch S P i = memSearch S P i'"
proof (induction "i' - i" arbitrary: i)
  case 0
  then show ?case by simp
next
  case (Suc n)
  then have "i < i'" by simp
  with Suc.prems have no: "\<not> occurs_at S P i" by simp
  show ?case
  proof (cases "length S < i + length P")
    case True
    then have "length S < i' + length P" using \<open>i < i'\<close> by simp
    with True show ?thesis by (simp add: memSearch.simps[of S P i] memSearch.simps[of S P i'])
  next
    case False
    with no have "memSearch S P i = memSearch S P (Suc i)"
      by (simp add: memSearch.simps[of S P i])
    also have "\<dots> = memSearch S P i'"
      using Suc.hyps(2) Suc.prems \<open>i < i'\<close> by (intro Suc.hyps(1)) auto
    finally show ?thesis .
  qed
qed

lemma memSearch_SomeI:
  "i \<le> m \<Longrightarrow> occurs_at S P m \<Longrightarrow> (\<And>j. i \<le> j \<Longrightarrow> j < m \<Longrightarrow> \<not> occurs_at S P j)
     \<Longrightarrow> memSearch S P i = Some m"
  using memSearch_skip[of i m S P]
  by (simp add: memSearch.simps[of S P m] occurs_at_def)

lemma memSearch_NoneI: "length S < i + length P \<Longrightarrow> memSearch S P i = None"
  by (simp add: memSearch.simps[of S P i])

lemma memSearch_Some:
  assumes "memSearch S P i = Some m"
  shows "i \<le> m \<and> occurs_at S P m \<and> (\<forall>j. i \<le> j \<and> j < m \<longrightarrow> \<not> occurs_at S P j)"
  using assms
proof (induction S P i rule: memSearch.induct)
  case (1 S P i)
  show ?case
  proof (cases "occurs_at S P i")
    case True
    with "1.prems" show ?thesis by (auto simp: memSearch.simps[of S P i] split: if_splits)
  next
    case False
    with "1.prems" have ok: "\<not> length S < i + length P" and "memSearch S P (Suc i) = Some m"
      by (simp_all add: memSearch.simps[of S P i] split: if_splits)
    from "1.IH"[OF ok False this(2)] False show ?thesis
      by (metis Suc_leD Suc_leI le_neq_implies_less)
  qed
qed

lemma memSearch_None:
  assumes "memSearch S P i = None" "i \<le> j"
  shows "\<not> occurs_at S P j"
  using assms
proof (induction S P i rule: memSearch.induct)
  case (1 S P i)
  show ?case
  proof (cases "length S < i + length P")
    case True
    with "1.prems" show ?thesis by (simp add: occurs_at_def)
  next
    case False
    with "1.prems" have no: "\<not> occurs_at S P i" and "memSearch S P (Suc i) = None"
      by (simp_all add: memSearch.simps[of S P i] split: if_splits)
    show ?thesis
    proof (cases "j = i")
      case True
      with no show ?thesis by simp
    next
      case False
      with "1.prems" have "Suc i \<le> j" by simp
      from "1.IH"[OF \<open>\<not> length S < i + length P\<close> no \<open>memSearch S P (Suc i) = None\<close> this]
      show ?thesis .
    qed
  qed
qed

lemma read_keeps:
  "content (snd (read n s)) = content s" "fault (snd (read n s)) = fault s"
  by (simp_all add: read_def Let_def)

lemma next_state_keeps:
  "content (fstream (next_state bs st)) = content (fstream st)"
  "fault (fstream (next_state bs st)) = fault (fstream st)"
  "position (next_state bs st) = position st + bytesReadPreviously st"
  using read_keeps[of bs "fstream st"] by (simp_all add: next_state_def split_def Let_def)

lemma short_read_iff:
  "0 < bs \<Longrightarrow> short_read bs s \<longleftrightarrow>
     (if good s then hits_fault s (min bs (length (content s) - gpos s)) else \<not> eofbit s)"
  by (auto simp: short_read_def read_def Let_def good_def)

lemma inv_read:
  assumes inv: "search_inv bs S st" and ns: "\<not> short_read bs (fstream st)" and bs: "0 < bs"
  defines "k \<equiv> (if good (fstream st)
                 then min bs (length S - (position st + bytesReadPreviously st)) else 0)"
  shows "read bs (fstream st) =
           (take k (drop (position st + bytesReadPreviously st) S),
            if good (fstream st)
            then (fstream st)\<lparr>gpos := position st + bytesReadPreviously st + k, gcount := k,
                    eofbit := k < bs, failbit := k < bs\<rparr>
            else (fstream st)\<lparr>failbit := True, gcount := 0\<rparr>)"
proof (cases "good (fstream st)")
  case True
  with ns bs have nf: "\<not> hits_fault (fstream st) (min bs (length (content (fstream st)) - gpos (fstream st)))"
    by (simp add: short_read_iff)
  show ?thesis using inv True read_ok[OF True nf refl]
    by (simp add: k_def search_inv_def)
next
  case False
  then show ?thesis by (simp add: read_not_good k_def)
qed

lemma inv_gcount:
  "search_inv bs S st \<Longrightarrow> \<not> short_read bs (fstream st) \<Longrightarrow> 0 < bs
     \<Longrightarrow> gcount (snd (read bs (fstream st))) = fresh bs S st"
  by (simp add: inv_read fresh_def)

lemma inv_not_short:
  "search_inv bs S st \<Longrightarrow> fault (fstream st) = None \<Longrightarrow> 0 < bs
     \<Longrightarrow> \<not> short_read bs (fstream st)"
  by (auto simp: short_read_iff search_inv_def hits_fault_def)

lemma inv_fill:
  assumes "search_inv bs S st"
  shows "bytesReadPreviously st + fresh bs S st \<le> length S - position st"
    and "bytesReadPreviously st + fresh bs S st = length S - position st
         \<or> (fresh bs S st = bs \<and> bytesReadPreviously st = bs)"
  using assms by (auto simp: search_inv_def fresh_def min_def split: if_splits)

lemma inv_stop:
  "search_inv bs S st \<Longrightarrow> \<not> short_read bs (fstream st) \<Longrightarrow> 0 < bs \<Longrightarrow> pat \<noteq> [] \<Longrightarrow>
     stop_of bs pat st = min (bytesReadPreviously st + length pat - 1)
                              (bytesReadPreviously st + fresh bs S st)"
  by (cases pat) (simp_all add: stop_of_def stop_index_def inv_gcount size_t_sub_def)

lemma inv_window:
  assumes inv: "search_inv bs S st" and ns: "\<not> short_read bs (fstream st)" and bs: "0 < bs"
    and "pat \<noteq> []"
  shows "search_window bs pat st = take (stop_of bs pat st) (drop (position st) S)"
proof -
  let ?b = "bytesReadPreviously st" and ?k = "fresh bs S st" and ?p = "position st"
  have stop: "stop_of bs pat st \<le> ?b + ?k" using inv_stop[OF assms] by simp
  have len: "length (buffer st) = 2 * bs" "?b \<le> bs" using inv by (simp_all add: search_inv_def)
  have pre: "take ?b (buffer st) = take ?b (drop ?p S)" using inv by (simp add: search_inv_def)
  have data: "fst (read bs (fstream st)) = take ?k (drop ?b (drop ?p S))"
    using inv ns bs by (simp add: inv_read fresh_def add.commute)
  have "take (?b + ?k) (write_at (buffer st) ?b (fst (read bs (fstream st))))
        = take (?b + ?k) (drop ?p S)"
    using len inv_fill(1)[OF inv]
    by (simp add: write_at_def data pre take_add min_def)
  then have "take (stop_of bs pat st) (take (?b + ?k) (write_at (buffer st) ?b (fst (read bs (fstream st)))))
        = take (stop_of bs pat st) (take (?b + ?k) (drop ?p S))" by simp
  with stop show ?thesis by (simp add: search_window_def min_absorb1)
qed

lemma inv_next:
  assumes inv: "search_inv bs S st" and ns: "\<not> short_read bs (fstream st)" and bs: "0 < bs"
  shows "search_inv bs S (next_state bs st)"
proof -
  let ?b = "bytesReadPreviously st" and ?k = "fresh bs S st" and ?p = "position st"
  have len: "length (buffer st) = 2 * bs" "?b \<le> bs" using inv by (simp_all add: search_inv_def)
  have pre: "take ?b (buffer st) = take ?b (drop ?p S)" using inv by (simp add: search_inv_def)
  have kb: "?k \<le> bs" by (simp add: fresh_def)
  have data: "fst (read bs (fstream st)) = take ?k (drop (?p + ?b) S)"
    using inv ns bs by (simp add: inv_read fresh_def add.commute)
  have ldata: "length (fst (read bs (fstream st))) = ?k"
    using inv_fill(1)[OF inv] by (simp add: data)
  have "take ?k (drop ?b (write_at (buffer st) ?b (fst (read bs (fstream st)))))
        = take ?k (drop (?p + ?b) S)"
    using len ldata by (simp add: write_at_def data)
  then have buf: "take ?k (drop ?b (write_at (buffer st) ?b (fst (read bs (fstream st))))
         @ drop (2 * bs - ?b) (write_at (buffer st) ?b (fst (read bs (fstream st)))))
        = take ?k (drop (?p + ?b) S)"
    using len ldata kb by (simp add: write_at_def)
  have lbuf: "length (write_at (buffer st) ?b (fst (read bs (fstream st)))) = 2 * bs"
    using len ldata kb by (simp add: write_at_def)
  show ?thesis
  proof (cases "good (fstream st)")
    case True
    then show ?thesis using inv bs buf lbuf kb len
      apply (simp add: search_inv_def next_state_def split_def Let_def inv_read[OF inv ns bs])
      apply (auto simp: fresh_def good_def min_def)
      done
  next
    case False
    then show ?thesis using inv bs buf lbuf kb len
      apply (simp add: search_inv_def next_state_def split_def Let_def inv_read[OF inv ns bs])
      apply (auto simp: fresh_def good_def min_def)
      done
  qed
qed

lemma starts_with_window:
  assumes "i + length P \<le> n" "n \<le> length S - p" "P \<noteq> []"
  shows "starts_with (drop i (take n (drop p S))) P \<longleftrightarrow> occurs_at S P (p + i)"
proof -
  have "drop i (take n (drop p S)) = take (n - i) (drop (p + i) S)"
    by (simp add: drop_take add.commute)
  moreover have "take (length P) (take (n - i) (drop (p + i) S)) = take (length P) (drop (p + i) S)"
    using assms by (simp add: min_absorb1)
  ultimately show ?thesis using assms
    by (cases P) (auto simp: starts_with_iff occurs_at_def)
qed

lemma starts_with_window_bound:
  assumes "starts_with (drop i (take n X)) P" "P \<noteq> []"
  shows "i + length P \<le> n"
  using assms by (cases P) (auto simp: starts_with_iff)

lemma window_found:
  assumes "P \<noteq> []" "n \<le> length S - p" "std_search (take n (drop p S)) P \<noteq> n"
  shows "memSearch S P p = Some (p + std_search (take n (drop p S)) P)"
proof -
  let ?W = "take n (drop p S)" and ?r = "std_search (take n (drop p S)) P"
  have lW: "length ?W = n" using assms(2) by simp
  with assms(3) std_search_le[of ?W P] have "?r < length ?W" by simp
  from std_search_found[OF this] have sw: "starts_with (drop ?r ?W) P" .
  from starts_with_window_bound[OF this assms(1)] have rb: "?r + length P \<le> n" .
  have occ: "occurs_at S P (p + ?r)"
    using sw starts_with_window[OF rb assms(2,1)] by simp
  have "\<not> occurs_at S P j" if "p \<le> j" "j < p + ?r" for j
  proof
    assume o: "occurs_at S P j"
    have "j - p < ?r" using that by simp
    from std_search_first[OF this] have "\<not> starts_with (drop (j - p) ?W) P" .
    moreover have "(j - p) + length P \<le> n" using rb that by simp
    from starts_with_window[OF this assms(2,1)] o that
    have "starts_with (drop (j - p) ?W) P" by simp
    ultimately show False by simp
  qed
  with occ show ?thesis by (intro memSearch_SomeI) auto
qed

lemma window_not_found:
  assumes "P \<noteq> []" "n \<le> length S - p" "std_search (take n (drop p S)) P = n"
    and "p \<le> j" "j + length P \<le> p + n"
  shows "\<not> occurs_at S P j"
proof
  assume o: "occurs_at S P j"
  have "(j - p) + length P \<le> n" using assms by simp
  from starts_with_window[OF this assms(2,1)] o assms(4)
  have "starts_with (drop (j - p) (take n (drop p S))) P" by simp
  moreover have "j - p < std_search (take n (drop p S)) P"
    using assms by (cases P) auto
  from std_search_first[OF this] have "\<not> starts_with (drop (j - p) (take n (drop p S))) P" .
  ultimately show False by simp
qed

lemma searchLoop_match:
  assumes "pat \<noteq> []" "0 < bs" "search_inv bs S st" "enters pat st"
    "\<not> short_read bs (fstream st)"
    "std_search (search_window bs pat st) pat \<noteq> stop_of bs pat st"
  shows "memSearch S pat (position st)
           = Some (position st + std_search (search_window bs pat st) pat)"
    and "position st + std_search (search_window bs pat st) pat + length pat
           \<le> gpos (fstream (next_state bs st))"
proof -
  note inv = assms(3) and ns = assms(5) and bs = assms(2)
  let ?n = "stop_of bs pat st" and ?p = "position st"
  have stop: "?n = min (bytesReadPreviously st + length pat - 1)
                       (bytesReadPreviously st + fresh bs S st)"
    by (rule inv_stop[OF inv ns bs assms(1)])
  have nle: "?n \<le> length S - ?p" using stop inv_fill(1)[OF inv] by simp
  note W = inv_window[OF inv ns bs assms(1)]
  show m: "memSearch S pat ?p = Some (?p + std_search (search_window bs pat st) pat)"
    using assms(6) unfolding W by (intro window_found[OF assms(1) nle])
  have "std_search (take ?n (drop ?p S)) pat < length (take ?n (drop ?p S))"
    using assms(6) std_search_le[of "take ?n (drop ?p S)" pat] nle unfolding W by simp
  from starts_with_window_bound[OF std_search_found[OF this] assms(1)]
  have "std_search (search_window bs pat st) pat + length pat \<le> ?n"
    unfolding W .
  moreover have "gpos (fstream (next_state bs st))
      = ?p + bytesReadPreviously st + fresh bs S st"
    using inv inv_next[OF inv ns bs]
    by (simp add: search_inv_def next_state_def split_def Let_def inv_gcount[OF inv ns bs])
  ultimately show "?p + std_search (search_window bs pat st) pat + length pat
           \<le> gpos (fstream (next_state bs st))"
    using stop by simp
qed

lemma searchLoop_correct:
  assumes "pat \<noteq> []" "0 < bs" "length pat \<le> bs + 1" "search_inv bs S st"
    "fault (fstream st) = None"
  shows "\<exists>f. searchLoop bs pat st
              = Some (Inr (search_result pat (memSearch S pat (position st)), f))
            \<and> content f = S \<and> fault f = None"
  using assms(4,5)
proof (induction "search_measure pat st" arbitrary: st rule: less_induct)
  case less
  note inv = \<open>search_inv bs S st\<close> and bs = assms(2)
  let ?b = "bytesReadPreviously st" and ?k = "fresh bs S st" and ?p = "position st"
  let ?n = "stop_of bs pat st"
  show ?case
  proof (cases "enters pat st")
    case False
    then have "length S < ?p + length pat"
      using inv by (auto simp: enters_def search_inv_def good_def fail_def split: if_splits)
    then have "memSearch S pat ?p = None" by (rule memSearch_NoneI)
    then show ?thesis using False inv less.prems
      by (simp add: searchLoop_exit search_result_def search_inv_def)
  next
    case True
    note ns = inv_not_short[OF inv less.prems(2) bs]
    note W = inv_window[OF inv ns bs assms(1)]
    have stop: "?n = min (?b + length pat - 1) (?b + ?k)"
      by (rule inv_stop[OF inv ns bs assms(1)])
    have nle: "?n \<le> length S - ?p" using stop inv_fill(1)[OF inv] by simp
    note inv' = inv_next[OF inv ns bs]
    have fault': "fault (fstream (next_state bs st)) = None"
      using less.prems(2) by (simp add: next_state_keeps)
    show ?thesis
    proof (cases "std_search (search_window bs pat st) pat = ?n")
      case found: False
      from searchLoop_match(1)[OF assms(1) bs inv True ns found]
      show ?thesis using searchLoop_found[OF True ns found] inv' fault'
        by (simp add: search_result_def search_inv_def)
    next
      case nf: True
      have none: "\<not> occurs_at S pat j" if "?p \<le> j" "j < ?p + ?b" for j
      proof (cases "j + length pat \<le> length S")
        case False
        then show ?thesis by (simp add: occurs_at_def)
      next
        case fits: True
        have "j + length pat \<le> ?p + ?n"
          using inv_fill(2)[OF inv] that fits assms(3) stop by auto
        with nf show ?thesis unfolding W
          by (intro window_not_found[OF assms(1) nle _ that(1)]) 
      qed
      have "memSearch S pat ?p = memSearch S pat (?p + ?b)"
        by (rule memSearch_skip) (use none in auto)
      moreover have "position (next_state bs st) = ?p + ?b"
        by (simp add: next_state_keeps)
      moreover from less(1)[OF search_measure_decreases[OF assms(1,2) True ns] inv' fault']
      obtain f where "searchLoop bs pat (next_state bs st)
              = Some (Inr (search_result pat (memSearch S pat (position (next_state bs st))), f))"
            "content f = S" "fault f = None" by blast
      ultimately show ?thesis using searchLoop_next[OF True ns nf] by simp
    qed
  qed
qed

lemma searchLoop_sound:
  assumes "pat \<noteq> []" "0 < bs" "search_inv bs S st"
    "searchLoop bs pat st = Some (Inr (r, f))"
  shows "content f = S \<and> fault f = fault (fstream st) \<and>
         (if patternFound r
          then position st \<le> matchPosition r \<and> occurs_at S pat (matchPosition r) \<and>
               patternSize r = length pat \<and> bytesDiffering r = 0
          else r = noMatch)"
  using assms(3,4)
proof (induction "search_measure pat st" arbitrary: st rule: less_induct)
  case less
  note inv = \<open>search_inv bs S st\<close> and bs = assms(2)
  show ?case
  proof (cases "enters pat st")
    case False
    then show ?thesis using inv less.prems(2)
      by (auto simp: searchLoop_exit search_inv_def noMatch_def)
  next
    case True
    show ?thesis
    proof (cases "short_read bs (fstream st)")
      case True
      with \<open>enters pat st\<close> less.prems(2) show ?thesis by (simp add: searchLoop_throw)
    next
      case ns: False
      note inv' = inv_next[OF inv ns bs]
      show ?thesis
      proof (cases "std_search (search_window bs pat st) pat = stop_of bs pat st")
        case found: False
        from searchLoop_match(1)[OF assms(1) bs inv True ns found, THEN memSearch_Some]
        show ?thesis using searchLoop_found[OF True ns found] inv' less.prems(2)
          by (auto simp: search_inv_def next_state_keeps)
      next
        case nf: True
        from less(1)[OF search_measure_decreases[OF assms(1,2) True ns] inv']
          searchLoop_next[OF True ns nf] less.prems(2)
        show ?thesis by (auto simp: next_state_keeps split: if_splits)
      qed
    qed
  qed
qed

lemma std_search_too_long: "length xs < length P \<Longrightarrow> std_search xs P = length xs"
  by (induction xs) (auto simp: starts_with_iff)

lemma searchLoop_long_pattern:
  assumes "0 < bs" "2 * bs < length pat" "search_inv bs S st" "fault (fstream st) = None"
  shows "\<exists>f. searchLoop bs pat st = Some (Inr (noMatch, f))"
  using assms(3,4)
proof (induction "search_measure pat st" arbitrary: st rule: less_induct)
  case less
  note inv = \<open>search_inv bs S st\<close>
  have ne: "pat \<noteq> []" using assms(2) by auto
  show ?case
  proof (cases "enters pat st")
    case False
    then show ?thesis by (simp add: searchLoop_exit)
  next
    case True
    note ns = inv_not_short[OF inv less.prems(2) assms(1)]
    have "fresh bs S st \<le> bs" "bytesReadPreviously st \<le> bs"
      using inv by (simp_all add: fresh_def search_inv_def)
    then have "stop_of bs pat st \<le> 2 * bs"
      using inv_stop[OF inv ns assms(1) ne] by simp
    moreover have "stop_of bs pat st \<le> length S - position st"
      using inv_stop[OF inv ns assms(1) ne] inv_fill(1)[OF inv] by simp
    ultimately have "std_search (search_window bs pat st) pat = stop_of bs pat st"
      using assms(2) unfolding inv_window[OF inv ns assms(1) ne]
      by (subst std_search_too_long) auto
    from searchLoop_next[OF True ns this]
      less(1)[OF search_measure_decreases[OF ne assms(1) True ns] inv_next[OF inv ns assms(1)]]
      less.prems(2)
    show ?thesis by (simp add: next_state_keeps)
  qed
qed

lemma searchInFile_blk_unfold:
  "searchInFile_blk bs buf0 file0 pat pos =
     (if short_read bs (seekg pos (clear file0)) then Some (Inl SystemError)
      else searchLoop bs pat
       \<lparr>fstream = snd (read bs (seekg pos (clear file0))),
        buffer = write_at buf0 0 (fst (read bs (seekg pos (clear file0)))),
        bytesReadPreviously = gcount (snd (read bs (seekg pos (clear file0)))),
        realBufferSize = gcount (snd (read bs (seekg pos (clear file0)))),
        position = pos\<rparr>)"
  by (simp add: searchInFile_blk_def short_read_def split_def Let_def)

lemma seekg_clear:
  "good (seekg pos (clear file0))" "gpos (seekg pos (clear file0)) = pos"
  "content (seekg pos (clear file0)) = content file0"
  "fault (seekg pos (clear file0)) = fault file0"
  by (simp_all add: seekg_def clear_def fail_def good_def Let_def)

lemma search_inv_init:
  assumes "0 < bs" "length buf0 = 2 * bs" "\<not> short_read bs (seekg pos (clear file0))"
  shows "search_inv bs (content file0) 
       \<lparr>fstream = snd (read bs (seekg pos (clear file0))),
        buffer = write_at buf0 0 (fst (read bs (seekg pos (clear file0)))),
        bytesReadPreviously = gcount (snd (read bs (seekg pos (clear file0)))),
        realBufferSize = gcount (snd (read bs (seekg pos (clear file0)))),
        position = pos\<rparr>"
proof -
  let ?S = "content file0"
  let ?f0 = "seekg pos (clear file0)"
  note f0 = seekg_clear[of pos file0]
  have nf: "\<not> hits_fault ?f0 (min bs (length (content ?f0) - gpos ?f0))"
    using assms(1,3) f0(1) by (simp add: short_read_iff)
  define k where "k = min bs (length ?S - pos)"
  have rd: "read bs ?f0 = (take k (drop pos ?S),
      ?f0\<lparr>gpos := pos + k, gcount := k, eofbit := k < bs, failbit := k < bs\<rparr>)"
    using read_ok[OF f0(1) nf refl] f0 by (simp add: k_def)
  show ?thesis
    unfolding rd using assms(1,2) f0
    by (auto simp: search_inv_def write_at_def k_def good_def min_def)
qed

lemma healthy_first_read:
  "fault file0 = None \<Longrightarrow> 0 < bs \<Longrightarrow> \<not> short_read bs (seekg pos (clear file0))"
  by (simp add: short_read_iff seekg_clear hits_fault_def)

lemma searchInFile_long_pattern:
  assumes "fault file0 = None" "2 * blockSize < length pat"
  shows "outcome (searchInFile file0 pat pos) = Some (Inr noMatch)"
proof -
  have bs: "0 < blockSize" by (simp add: blockSize_def)
  have len: "length (replicate (2 * blockSize) (0::byte)) = 2 * blockSize" by simp
  note ns = healthy_first_read[OF assms(1) bs, of pos]
  from searchLoop_long_pattern[OF bs assms(2) search_inv_init[OF bs len ns]] assms(1)
  show ?thesis
    unfolding searchInFile_def searchInFile_blk_unfold
    by (auto simp: outcome_def ns read_keeps seekg_clear)
qed

lemma searchInFile_blk_correct:
  assumes "pat \<noteq> []" "0 < bs" "length pat \<le> bs + 1" "length buf0 = 2 * bs" "fault file0 = None"
  shows "\<exists>f. searchInFile_blk bs buf0 file0 pat pos
              = Some (Inr (search_result pat (memSearch (content file0) pat pos), f))
            \<and> content f = content file0 \<and> fault f = None"
proof -
  note ns = healthy_first_read[OF assms(5,2), of pos]
  from searchLoop_correct[OF assms(1-3) search_inv_init[OF assms(2,4) ns]] assms(5)
  show ?thesis unfolding searchInFile_blk_unfold
    by (simp add: ns read_keeps seekg_clear)
qed

lemma searchInFile_blk_sound:
  assumes "pat \<noteq> []" "0 < bs" "length buf0 = 2 * bs"
    "searchInFile_blk bs buf0 file0 pat pos = Some (Inr (r, f))"
  shows "content f = content file0 \<and> fault f = fault file0 \<and>
         (if patternFound r
          then pos \<le> matchPosition r \<and> occurs_at (content file0) pat (matchPosition r) \<and>
               patternSize r = length pat \<and> bytesDiffering r = 0
          else r = noMatch)"
proof -
  have ns: "\<not> short_read bs (seekg pos (clear file0))"
    using assms(4) unfolding searchInFile_blk_unfold by (auto split: if_splits)
  from searchLoop_sound[OF assms(1,2) search_inv_init[OF assms(2,3) ns]] assms(4)
  show ?thesis unfolding searchInFile_blk_unfold
    by (auto simp: ns read_keeps seekg_clear split: if_splits)
qed

lemma searchInFile_correct:
  assumes "pat \<noteq> []" "length pat \<le> blockSize + 1" "fault file0 = None"
  shows "\<exists>f. searchInFile file0 pat pos
              = Some (Inr (search_result pat (memSearch (content file0) pat pos), f))
            \<and> content f = content file0 \<and> fault f = None"
  unfolding searchInFile_def
  by (rule searchInFile_blk_correct[OF assms(1) _ assms(2) _ assms(3)])
     (simp_all add: blockSize_def)

lemma searchInFile_sound:
  assumes "pat \<noteq> []" "searchInFile file0 pat pos = Some (Inr (r, f))"
  shows "content f = content file0 \<and> fault f = fault file0 \<and>
         (if patternFound r
          then pos \<le> matchPosition r \<and> occurs_at (content file0) pat (matchPosition r) \<and>
               patternSize r = length pat \<and> bytesDiffering r = 0
          else r = noMatch)"
  by (rule searchInFile_blk_sound[OF assms(1) _ _ assms(2)[unfolded searchInFile_def]])
     (simp_all add: blockSize_def)

subsection \<open>The empty pattern\<close>

lemma searchLoop_empty_pattern_some:
  "searchLoop bs pat st = Some y \<Longrightarrow>
     \<not> (pat = [] \<and> eofbit (fstream st) \<and> bytesReadPreviously st = 0)"
proof (induction rule: searchLoop.raw_induct[rotated 1, consumes 1])
  case (1 loop bs pat st y)
  show ?case
  proof
    assume H: "pat = [] \<and> eofbit (fstream st) \<and> bytesReadPreviously st = 0"
    then have ng: "\<not> good (fstream st)" by (simp add: good_def)
    let ?st' = "next_state bs st"
    have "loop bs pat ?st' = Some y"
      using 1(2) H
      by (simp add: read_not_good[OF ng] next_state_def stop_index_def size_t_sub_def write_at_def
            Let_def)
    from 1(1)[OF this] H show False
      by (simp add: next_state_def read_not_good[OF ng] Let_def)
  qed
qed

lemma searchLoop_empty_pattern_hangs:
  "eofbit (fstream st) \<Longrightarrow> bytesReadPreviously st = 0 \<Longrightarrow> searchLoop bs [] st = None"
  using searchLoop_empty_pattern_some[of bs "[]" st] by (cases "searchLoop bs [] st") auto

lemma searchInFile_empty_empty:
  "content file0 = [] \<Longrightarrow> fault file0 = None \<Longrightarrow> searchInFile file0 [] pos = None"
  by (simp add: searchInFile_def searchInFile_blk_def read_def good_def seekg_def clear_def fail_def
      hits_fault_def blockSize_def Let_def searchLoop_empty_pattern_hangs)
section \<open>compareFiles\<close>

declare compareLoop.simps [simp del]

lemma count_differences_le: "count_differences xs ys \<le> min (length xs) (length ys)"
  unfolding count_differences_def
  by (rule order_trans[OF length_filter_le]) simp

lemma count_differences_split:
  "count_differences xs ys
     = count_differences (take n xs) (take n ys) + count_differences (drop n xs) (drop n ys)"
proof -
  have "zip xs ys = zip (take n xs) (take n ys) @ zip (drop n xs) (drop n ys)"
    by (simp add: take_zip[symmetric] drop_zip[symmetric])
  then show ?thesis by (simp add: count_differences_def)
qed

lemma count_differences_take:
  "min (length xs) (length ys) \<le> n
     \<Longrightarrow> count_differences (take n xs) (take n ys) = count_differences xs ys"
  by (simp add: count_differences_def take_zip[symmetric])

lemma count_differences_same [simp]: "count_differences xs xs = 0"
  by (induction xs) (simp_all add: count_differences_def)

lemma count_differences_prefix [simp]: "count_differences xs (xs @ ys) = 0"
  by (induction xs) (simp_all add: count_differences_def)

lemma count_differences_zero:
  "take (length xs) ys = xs \<Longrightarrow> count_differences xs ys = 0"
  using count_differences_prefix[of xs "drop (length xs) ys"]
  by (metis append_take_drop_id)

lemma compareLoop_step:
  "compareLoop f1 f2 t d =
     (if short_read blockSize f1 \<or> short_read blockSize f2 then Inl SystemError
      else if \<not> fail (snd (read blockSize f1)) \<and> \<not> fail (snd (read blockSize f2))
      then compareLoop (snd (read blockSize f1)) (snd (read blockSize f2))
             (t + min (gcount (snd (read blockSize f1))) (gcount (snd (read blockSize f2))))
             (d + count_differences
                    (take (min (gcount (snd (read blockSize f1))) (gcount (snd (read blockSize f2))))
                       (fst (read blockSize f1)))
                    (take (min (gcount (snd (read blockSize f1))) (gcount (snd (read blockSize f2))))
                       (fst (read blockSize f2))))
      else Inr (d + count_differences
                    (take (min (gcount (snd (read blockSize f1))) (gcount (snd (read blockSize f2))))
                       (fst (read blockSize f1)))
                    (take (min (gcount (snd (read blockSize f1))) (gcount (snd (read blockSize f2))))
                       (fst (read blockSize f2))),
                snd (read blockSize f1), snd (read blockSize f2)))"
  by (subst compareLoop.simps) (simp add: short_read_def split_def Let_def)

lemma read_progress:
  "\<not> fail (snd (read bs s)) \<Longrightarrow> 0 < bs
     \<Longrightarrow> length (content (snd (read bs s))) - gpos (snd (read bs s))
           < length (content s) - gpos s"
  by (cases "good s"; cases "hits_fault s (min bs (length (content s) - gpos s))")
     (auto simp: read_def fail_def Let_def)

lemma read_length: "length (fst (read bs s)) = gcount (snd (read bs s))"
  by (simp add: read_def Let_def)

lemma read_gcount_le:
  "gcount (snd (read bs s)) + (length (content (snd (read bs s))) - gpos (snd (read bs s)))
     \<le> length (content s) - gpos s"
  by (auto simp: read_def Let_def)

lemma blockSize_pos: "0 < blockSize"
  by (simp add: blockSize_def)

lemma compareLoop_cases:
  assumes "compareLoop f1 f2 t d = Inr (n, g1, g2)"
  obtains (continue) t' d' where
      "\<not> fail (snd (read blockSize f1))" "\<not> fail (snd (read blockSize f2))"
      "compareLoop (snd (read blockSize f1)) (snd (read blockSize f2)) t' d' = Inr (n, g1, g2)"
      "d' \<le> d + gcount (snd (read blockSize f1))"
    | (stop) "g1 = snd (read blockSize f1)" "g2 = snd (read blockSize f2)"
      "n \<le> d + gcount (snd (read blockSize f1))"
proof -
  let ?r1 = "read blockSize f1" and ?r2 = "read blockSize f2"
  let ?m = "min (gcount (snd ?r1)) (gcount (snd ?r2))"
  let ?d' = "d + count_differences (take ?m (fst ?r1)) (take ?m (fst ?r2))"
  have cd: "?d' \<le> d + gcount (snd ?r1)"
    using count_differences_le[of "take ?m (fst ?r1)" "take ?m (fst ?r2)"]
    by (simp add: read_length)
  have ns: "\<not> (short_read blockSize f1 \<or> short_read blockSize f2)"
    using assms by (subst (asm) compareLoop_step) (simp split: if_splits)
  show thesis
  proof (cases "\<not> fail (snd ?r1) \<and> \<not> fail (snd ?r2)")
    case True
    have "compareLoop f1 f2 t d = compareLoop (snd ?r1) (snd ?r2) (t + ?m) ?d'"
      using ns True by (subst compareLoop_step) simp
    with assms have "compareLoop (snd ?r1) (snd ?r2) (t + ?m) ?d' = Inr (n, g1, g2)" by simp
    with True cd show thesis by (intro continue[of "t + ?m" ?d']) simp_all
  next
    case False
    have "compareLoop f1 f2 t d = Inr (?d', snd ?r1, snd ?r2)"
      using ns False by (subst compareLoop_step) auto
    from trans[OF assms[symmetric] this]
    have "n = ?d'" "g1 = snd ?r1" "g2 = snd ?r2" by blast+
    with cd show thesis by (intro stop) simp_all
  qed
qed

lemma compareLoop_keeps:
  "compareLoop f1 f2 t d = Inr (n, g1, g2) \<Longrightarrow>
     content g1 = content f1 \<and> fault g1 = fault f1 \<and>
     content g2 = content f2 \<and> fault g2 = fault f2"
proof (induction "length (content f1) - gpos f1" arbitrary: f1 f2 t d rule: less_induct)
  case less
  from less.prems show ?case
  proof (cases rule: compareLoop_cases)
    case (continue t' d')
    have "length (content (snd (read blockSize f1))) - gpos (snd (read blockSize f1))
         < length (content f1) - gpos f1"
      using continue(1) by (intro read_progress blockSize_pos)
    from less.hyps[OF this continue(3)] show ?thesis by (simp add: read_keeps)
  next
    case stop
    then show ?thesis by (simp add: read_keeps)
  qed
qed

lemma compareLoop_bound:
  "compareLoop f1 f2 t d = Inr (n, g1, g2) \<Longrightarrow> n \<le> d + (length (content f1) - gpos f1)"
proof (induction "length (content f1) - gpos f1" arbitrary: f1 f2 t d rule: less_induct)
  case less
  note le = read_gcount_le[of blockSize f1]
  from less.prems show ?case
  proof (cases rule: compareLoop_cases)
    case (continue t' d')
    have "length (content (snd (read blockSize f1))) - gpos (snd (read blockSize f1))
         < length (content f1) - gpos f1"
      using continue(1) by (intro read_progress blockSize_pos)
    from less.hyps[OF this continue(3)] continue(4) le show ?thesis by linarith
  next
    case stop
    with le show ?thesis by linarith
  qed
qed

lemma compareLoop_healthy:
  assumes "good f1" "good f2" "fault f1 = None" "fault f2 = None"
  shows "\<exists>g1 g2. compareLoop f1 f2 t d =
           Inr (d + count_differences (drop (gpos f1) (content f1)) (drop (gpos f2) (content f2)),
                g1, g2)
         \<and> content g1 = content f1 \<and> fault g1 = None
         \<and> content g2 = content f2 \<and> fault g2 = None"
  using assms
proof (induction "length (content f1) - gpos f1" arbitrary: f1 f2 t d rule: less_induct)
  case less
  note prems = less.prems
  let ?X1 = "drop (gpos f1) (content f1)" and ?X2 = "drop (gpos f2) (content f2)"
  define k1 where "k1 = min blockSize (length (content f1) - gpos f1)"
  define k2 where "k2 = min blockSize (length (content f2) - gpos f2)"
  define g1 where "g1 = f1\<lparr>gpos := gpos f1 + k1, gcount := k1, eofbit := k1 < blockSize,
     failbit := k1 < blockSize\<rparr>"
  define g2 where "g2 = f2\<lparr>gpos := gpos f2 + k2, gcount := k2, eofbit := k2 < blockSize,
     failbit := k2 < blockSize\<rparr>"
  have r1: "read blockSize f1 = (take k1 ?X1, g1)"
    using prems by (simp add: read_def hits_fault_def k1_def g1_def Let_def)
  have r2: "read blockSize f2 = (take k2 ?X2, g2)"
    using prems by (simp add: read_def hits_fault_def k2_def g2_def Let_def)
  define n where "n = min k1 k2"
  have cd: "count_differences (take n (take k1 ?X1)) (take n (take k2 ?X2))
      = count_differences (take n ?X1) (take n ?X2)"
    by (simp add: n_def min_def)
  show ?case
  proof (cases "\<not> fail g1 \<and> \<not> fail g2")
    case True
    then have full: "k1 = blockSize" "k2 = blockSize"
      using prems by (auto simp: g1_def g2_def fail_def good_def k1_def k2_def)
    have good': "good g1" "good g2" "fault g1 = None" "fault g2 = None"
      using True prems full by (auto simp: g1_def g2_def fail_def good_def)
    have step: "compareLoop f1 f2 t d = compareLoop g1 g2 (t + n)
          (d + count_differences (take n ?X1) (take n ?X2))"
      using True full
      by (subst compareLoop.simps) (simp add: r1 r2 Let_def n_def g1_def g2_def cd[unfolded n_def])
    have "length (content g1) - gpos g1 < length (content f1) - gpos f1"
      using full by (auto simp: g1_def k1_def blockSize_def min_def split: if_splits)
    from less.hyps[OF this good', of "t + n" "d + count_differences (take n ?X1) (take n ?X2)"]
    have "\<exists>h1 h2. compareLoop g1 g2 (t + n) (d + count_differences (take n ?X1) (take n ?X2)) =
           Inr (d + count_differences (take n ?X1) (take n ?X2)
                  + count_differences (drop (gpos g1) (content g1)) (drop (gpos g2) (content g2)),
                h1, h2)
         \<and> content h1 = content g1 \<and> fault h1 = None
         \<and> content h2 = content g2 \<and> fault h2 = None" .
    moreover have "drop (gpos g1) (content g1) = drop n ?X1" "drop (gpos g2) (content g2) = drop n ?X2"
      using full by (simp_all add: g1_def g2_def n_def add.commute)
    ultimately show ?thesis unfolding step
      using count_differences_split[of ?X1 ?X2 n] by (auto simp: g1_def g2_def)
  next
    case False
    then have short: "k1 < blockSize \<or> k2 < blockSize"
      using prems by (auto simp: g1_def g2_def fail_def good_def)
    then have "min (length ?X1) (length ?X2) \<le> n"
      by (auto simp: n_def k1_def k2_def min_def)
    have mn: "min n k1 = n" "min n k2 = n" by (simp_all add: n_def)
    from count_differences_take[OF \<open>min (length ?X1) (length ?X2) \<le> n\<close>]
    have "compareLoop f1 f2 t d = Inr (d + count_differences ?X1 ?X2, g1, g2)"
      using False
      by (subst compareLoop.simps) (auto simp: r1 r2 Let_def n_def[symmetric] g1_def g2_def mn)
    then show ?thesis by (simp add: g1_def g2_def prems)
  qed
qed

lemma compareLoop_short_read:
  "short_read blockSize f1 \<or> short_read blockSize f2 \<Longrightarrow> compareLoop f1 f2 t d = Inl SystemError"
  by (subst compareLoop_step) simp

lemma compareLoop_fault:
  assumes "good f1" "good f2" "fault f1 = Some ft" "gpos f1 \<le> ft" "ft < length (content f1)"
    "length (content f1) - gpos f1 \<le> length (content f2) - gpos f2"
  shows "compareLoop f1 f2 t d = Inl SystemError"
  using assms
proof (induction "length (content f1) - gpos f1" arbitrary: f1 f2 t d rule: less_induct)
  case less
  let ?k1 = "min blockSize (length (content f1) - gpos f1)"
  let ?k2 = "min blockSize (length (content f2) - gpos f2)"
  show ?case
  proof (cases "short_read blockSize f1 \<or> short_read blockSize f2")
    case True
    then show ?thesis by (rule compareLoop_short_read)
  next
    case False
    then have nf: "\<not> hits_fault f1 ?k1" "\<not> hits_fault f2 ?k2"
      using less.prems(1,2) by (simp_all add: short_read_iff blockSize_pos)
    note r1 = read_ok[OF less.prems(1) nf(1) refl] and r2 = read_ok[OF less.prems(2) nf(2) refl]
    from nf(1) less.prems(3,4,5) have far: "gpos f1 + ?k1 \<le> ft"
      by (simp add: hits_fault_def)
    with less.prems(5,6) have full: "?k1 = blockSize" "?k2 = blockSize"
      by (auto simp: min_def split: if_splits)
    let ?g1 = "snd (read blockSize f1)" and ?g2 = "snd (read blockSize f2)"
    have g: "good ?g1" "good ?g2" "fault ?g1 = Some ft" "gpos ?g1 \<le> ft"
      "ft < length (content ?g1)"
      "length (content ?g1) - gpos ?g1 \<le> length (content ?g2) - gpos ?g2"
      using less.prems far full by (auto simp: r1 r2 good_def)
    have "length (content ?g1) - gpos ?g1 < length (content f1) - gpos f1"
      using g(1) by (intro read_progress blockSize_pos) (simp add: good_def fail_def)
    from less.hyps[OF this g] show ?thesis
      using False g(1,2) by (subst compareLoop_step) (simp add: good_def fail_def)
  qed
qed

section \<open>Rounding to binary64\<close>

declare bitlength.simps [simp del]

lemma bitlength_0 [simp]: "bitlength 0 = 0"
  by (simp add: bitlength.simps)

lemma bitlength_pos: "0 < n \<Longrightarrow> bitlength n = Suc (bitlength (n div 2))"
  by (simp add: bitlength.simps)

lemma bitlength_upper: "n < 2 ^ bitlength n"
proof (induction n rule: bitlength.induct)
  case (1 n)
  show ?case
  proof (cases "n = 0")
    case True
    then show ?thesis by simp
  next
    case False
    from "1.IH"[OF False] have "n div 2 < 2 ^ bitlength (n div 2)" .
    then have "n < 2 * 2 ^ bitlength (n div 2)" by linarith
    moreover have "bitlength n = Suc (bitlength (n div 2))"
      using False by (intro bitlength_pos) simp
    ultimately show ?thesis by simp
  qed
qed

lemma bitlength_lower: "0 < n \<Longrightarrow> 2 ^ (bitlength n - 1) \<le> n"
proof (induction n rule: bitlength.induct)
  case (1 n)
  from "1.prems" have n: "n \<noteq> 0" by simp
  have bl: "bitlength n - 1 = bitlength (n div 2)"
    using bitlength_pos[OF "1.prems"] by simp
  show ?case
  proof (cases "n div 2 = 0")
    case True
    then show ?thesis using "1.prems" unfolding bl by simp
  next
    case False
    then have pos: "0 < n div 2" by simp
    from "1.IH"[OF n pos] have IH: "2 ^ (bitlength (n div 2) - 1) \<le> n div 2" .
    have "bitlength (n div 2) = Suc (bitlength (n div 2) - 1)"
      using bitlength_pos[OF pos] by simp
    then have "(2::nat) ^ bitlength (n div 2) = 2 * 2 ^ (bitlength (n div 2) - 1)"
      by (metis power_Suc)
    also have "\<dots> \<le> 2 * (n div 2)" using IH by simp
    also have "\<dots> \<le> n" by simp
    finally show ?thesis unfolding bl .
  qed
qed

lemma bitlength_mono: "a \<le> b \<Longrightarrow> bitlength a \<le> bitlength b"
proof (cases "a = 0")
  case True
  then show ?thesis by simp
next
  case False
  assume "a \<le> b"
  with False have pos: "0 < a" by auto
  from bitlength_lower[OF pos] bitlength_upper[of b] \<open>a \<le> b\<close>
  have "(2::nat) ^ (bitlength a - 1) < 2 ^ bitlength b" by linarith
  then have "bitlength a - 1 < bitlength b" by (simp add: power_strict_increasing_iff)
  then show ?thesis by simp
qed

lemma round_half_even_cases:
  "round_half_even num den = num div den \<or> round_half_even num den = num div den + 1"
  by (simp add: round_half_even_def Let_def)

lemma round_half_even_exact: "0 < den \<Longrightarrow> round_half_even (c * den) den = c"
  by (simp add: round_half_even_def Let_def)

lemma round_half_even_le:
  assumes "0 < den" "num \<le> c * den"
  shows "round_half_even num den \<le> c"
proof (cases "num = c * den")
  case True
  with assms(1) show ?thesis by (simp add: round_half_even_exact)
next
  case False
  with assms(2) have "num < c * den" by simp
  then have "num div den < c" using assms(1) by (simp add: div_less_iff_less_mult)
  with round_half_even_cases[of num den] show ?thesis by auto
qed

lemma round_half_even_ge:
  assumes "0 < den" "c * den \<le> num"
  shows "c \<le> round_half_even num den"
proof -
  have "c \<le> num div den" using assms by (simp add: less_eq_div_iff_mult_less_eq)
  with round_half_even_cases[of num den] show ?thesis by auto
qed

lemma round_half_even_mono:
  assumes "0 < den" "a \<le> b"
  shows "round_half_even a den \<le> round_half_even b den"
proof (cases "a div den = b div den")
  case True
  have "a mod den \<le> b mod den"
    using assms(2) True by (metis add_le_cancel_left mult_div_mod_eq)
  then show ?thesis using True by (auto simp: round_half_even_def Let_def)
next
  case False
  with assms(2) have "a div den < b div den" by (simp add: div_le_mono le_neq_implies_less)
  with round_half_even_cases[of a den] round_half_even_cases[of b den] show ?thesis by auto
qed

lemma double_of_nat_upper: "double_of_nat n \<le> 2 ^ (53 + (bitlength n - 53))"
proof -
  let ?t = "bitlength n - 53"
  have "n \<le> 2 ^ bitlength n" using bitlength_upper[of n] by simp
  also have "(2::nat) ^ bitlength n \<le> 2 ^ (53 + ?t)" by (intro power_increasing) auto
  finally have "n \<le> 2 ^ 53 * 2 ^ ?t" by (simp add: power_add)
  then have "round_half_even n (2 ^ ?t) \<le> 2 ^ 53" by (intro round_half_even_le) auto
  then show ?thesis by (simp add: double_of_nat_def Let_def power_add)
qed

lemma double_of_nat_lower:
  assumes "0 < n"
  shows "2 ^ (bitlength n - 1) \<le> double_of_nat n"
proof -
  let ?t = "bitlength n - 53"
  have e: "bitlength n - 1 - ?t + ?t = bitlength n - 1" by arith
  have p: "2 ^ (bitlength n - 1 - ?t) * 2 ^ ?t = (2::nat) ^ (bitlength n - 1)"
    unfolding power_add[symmetric] e ..
  with bitlength_lower[OF assms] have "2 ^ (bitlength n - 1 - ?t) * 2 ^ ?t \<le> n" by simp
  then have "2 ^ (bitlength n - 1 - ?t) \<le> round_half_even n (2 ^ ?t)"
    by (intro round_half_even_ge) auto
  then have "2 ^ (bitlength n - 1 - ?t) * 2 ^ ?t \<le> round_half_even n (2 ^ ?t) * 2 ^ ?t"
    by (rule mult_le_mono1)
  then show ?thesis unfolding p by (simp add: double_of_nat_def Let_def)
qed

lemma double_of_nat_pos: "0 < n \<Longrightarrow> 0 < double_of_nat n"
  using double_of_nat_lower[of n] by (metis less_le_trans zero_less_numeral zero_less_power)

lemma double_of_nat_small: "n < 2 ^ 53 \<Longrightarrow> double_of_nat n = n"
proof -
  assume "n < 2 ^ 53"
  have "bitlength n \<le> 53"
  proof (rule ccontr)
    assume "\<not> bitlength n \<le> 53"
    then have "53 \<le> bitlength n - 1" and "0 < n" by (auto intro: gr0I)
    then have "(2::nat) ^ 53 \<le> 2 ^ (bitlength n - 1)" by (intro power_increasing) auto
    with bitlength_lower[OF \<open>0 < n\<close>] \<open>n < 2 ^ 53\<close> show False by linarith
  qed
  then show ?thesis by (simp add: double_of_nat_def round_half_even_def)
qed

lemma double_of_nat_mono:
  assumes "a \<le> b"
  shows "double_of_nat a \<le> double_of_nat b"
proof (cases "bitlength a - 53 = bitlength b - 53")
  case True
  with round_half_even_mono[OF _ assms, of "2 ^ (bitlength b - 53)"] show ?thesis
    by (simp add: double_of_nat_def Let_def)
next
  case False
  with bitlength_mono[OF assms] have lt: "bitlength a - 53 < bitlength b - 53" by simp
  then have pos: "0 < b" by (auto intro: gr0I)
  from lt have "53 + (bitlength a - 53) \<le> bitlength b - 1" by simp
  then have "(2::nat) ^ (53 + (bitlength a - 53)) \<le> 2 ^ (bitlength b - 1)"
    by (intro power_increasing) auto
  with double_of_nat_upper[of a] double_of_nat_lower[OF pos] show ?thesis by linarith
qed

lemma double_div_nonneg: "0 \<le> double_div p q"
  by (simp add: double_div_def Let_def)

lemma double_div_self:
  assumes "0 < p"
  shows "double_div p p = 1"
proof -
  have "round_half_even (p * 2 ^ 52) p = 2 ^ 52"
    using round_half_even_exact[OF assms, of "2 ^ 52"] by (simp add: mult.commute)
  then show ?thesis using assms by (simp add: double_div_def Let_def)
qed

lemma double_div_le_1:
  assumes "p \<le> q"
  shows "double_div p q \<le> 1"
proof (cases "p = 0 \<or> q = 0")
  case True
  then show ?thesis by (auto simp: double_div_def)
next
  case False
  then have pos: "0 < p" "0 < q" by auto
  define e0 where "e0 = int (bitlength p) - int (bitlength q)"
  define e where "e = (if (if 0 \<le> e0 then q * 2 ^ nat e0 \<le> p else q \<le> p * 2 ^ nat (- e0))
                    then e0 else e0 - 1)"
  define s where "s = 52 - e"
  have "e0 \<le> 0" using bitlength_mono[OF assms] by (simp add: e0_def)
  then have "e \<le> 0" by (simp add: e_def)
  then have s: "0 \<le> s" by (simp add: s_def)
  have dd: "double_div p q = of_nat (round_half_even (p * 2 ^ nat s) q) / 2 ^ nat s"
    using False s unfolding double_div_def e0_def[symmetric] Let_def e_def[symmetric] s_def[symmetric]
    by simp
  have "p * 2 ^ nat s \<le> 2 ^ nat s * q" using assms by (simp add: mult.commute)
  from round_half_even_le[OF pos(2) this]
  have "(of_nat (round_half_even (p * 2 ^ nat s) q) :: rat) \<le> of_nat (2 ^ nat s)"
    by (simp only: of_nat_le_iff)
  then show ?thesis unfolding dd by (simp add: divide_le_eq)
qed

lemma double_0_7_less_1: "double_0_7 < 1"
  by (simp add: double_0_7_def)

lemma double_0_7_pos: "0 < double_0_7"
  by (simp add: double_0_7_def)

lemma double_0_7_literal: "double_div 7 10 = double_0_7"
  by (simp add: double_div_def double_0_7_def bitlength.simps round_half_even_def Let_def)

lemma quota_double_nonneg: "0 \<le> quota_double r"
  by (simp add: quota_double_def double_div_nonneg)

lemma quota_double_pos_found: "0 < quota_double r \<Longrightarrow> patternFound r \<and> 0 < overlapCount r"
  by (auto simp: quota_double_def split: if_splits)

lemma quota_double_le_1:
  assumes "bytesDiffering r \<le> overlapCount r"
  shows "quota_double r \<le> 1"
proof -
  have "size_t_sub (overlapCount r) (bytesDiffering r) \<le> overlapCount r"
    using assms by (simp add: size_t_sub_def)
  then have "double_of_nat (size_t_sub (overlapCount r) (bytesDiffering r))
      \<le> double_of_nat (overlapCount r)" by (rule double_of_nat_mono)
  then show ?thesis by (simp add: quota_double_def double_div_le_1)
qed

lemma quota_double_noMatch [simp]: "quota_double noMatch = 0"
  by (simp add: quota_double_def noMatch_def)

lemma quota_double_full:
  assumes "patternFound r" "0 < overlapCount r" "bytesDiffering r = 0"
  shows "quota_double r = 1"
  using assms double_of_nat_pos[of "overlapCount r"]
  by (simp add: quota_double_def size_t_sub_def double_div_self)

lemma double_of_nat_ties_to_even:
  "double_of_nat (2 ^ 53 + 1) = 2 ^ 53 \<and> double_of_nat (2 ^ 53 + 3) = 2 ^ 53 + 4"
  by (simp add: double_of_nat_def bitlength.simps round_half_even_def Let_def)

lemma double_div_third: "double_div 1 3 = 6004799503160661 / 18014398509481984"
  by (simp add: double_div_def bitlength.simps round_half_even_def Let_def)

section \<open>The refinement loop\<close>

lemma filter_upt_Cons:
  assumes "filter P [i..<n] = m # ms"
  shows "i \<le> m \<and> m < n \<and> P m \<and> (\<forall>j. i \<le> j \<and> j < m \<longrightarrow> \<not> P j) \<and> ms = filter P [Suc m..<n]"
  using assms
proof (induction "n - i" arbitrary: i)
  case 0
  then show ?case by simp
next
  case (Suc k)
  then have lt: "i < n" by simp
  then have up: "[i..<n] = i # [Suc i..<n]" by (simp add: upt_conv_Cons)
  show ?case
  proof (cases "P i")
    case True
    with Suc.prems up lt show ?thesis by auto
  next
    case False
    with Suc.prems up have "filter P [Suc i..<n] = m # ms" by simp
    moreover have "k = n - Suc i" using Suc.hyps(2) by simp
    ultimately have "Suc i \<le> m \<and> m < n \<and> P m \<and> (\<forall>j. Suc i \<le> j \<and> j < m \<longrightarrow> \<not> P j)
        \<and> ms = filter P [Suc m..<n]" by (rule Suc.hyps(1)[rotated])
    with False show ?thesis by (metis Suc_leD Suc_leI le_neq_implies_less)
  qed
qed

lemma memSearch_NoneI2:
  "(\<And>j. i \<le> j \<Longrightarrow> \<not> occurs_at S P j) \<Longrightarrow> memSearch S P i = None"
  using memSearch_Some[of S P i] by (cases "memSearch S P i") auto

lemma memSearch_filter:
  "memSearch S P i =
     (case filter (occurs_at S P) [i..<Suc (length S)] of [] \<Rightarrow> None | m # ms \<Rightarrow> Some m)"
proof (cases "filter (occurs_at S P) [i..<Suc (length S)]")
  case Nil
  have "\<not> occurs_at S P j" if "i \<le> j" for j
  proof (cases "j < Suc (length S)")
    case True
    with that have "j \<in> set [i..<Suc (length S)]" by auto
    with Nil show ?thesis by (metis filter_empty_conv)
  next
    case False
    then show ?thesis by (simp add: occurs_at_def)
  qed
  then show ?thesis using Nil by (simp add: memSearch_NoneI2)
next
  case (Cons m ms)
  from filter_upt_Cons[OF this] show ?thesis
    using Cons by (simp add: memSearch_SomeI)
qed

lemma seek_end_ok:
  assumes "oc \<le> length (content f)"
  shows "good (seekg_end (- int oc) (clear f))"
    "gpos (seekg_end (- int oc) (clear f)) = length (content f) - oc"
    "content (seekg_end (- int oc) (clear f)) = content f"
    "fault (seekg_end (- int oc) (clear f)) = fault f"
  using assms by (simp_all add: seekg_end_def clear_def fail_def good_def Let_def nat_diff_distrib')

lemma seek_end_failed:
  assumes "length (content f) < oc" "0 < bs"
  shows "short_read bs (seekg_end (- int oc) (clear f))"
  using assms
  by (simp add: short_read_def read_def seekg_end_def clear_def fail_def good_def Let_def)

lemma compareFiles_in_refine:
  assumes "fault f1 = None" "fault f2 = None" "oc \<le> length (content f1)"
  shows "\<exists>g1 g2. compareFiles (seekg_end (- int oc) (clear f1)) (seekg 0 (clear f2))
            = Inr (count_differences (drop (length (content f1) - oc) (content f1)) (content f2),
                   g1, g2)
          \<and> content g1 = content f1 \<and> fault g1 = None
          \<and> content g2 = content f2 \<and> fault g2 = None"
  using compareLoop_healthy[of "seekg_end (- int oc) (clear f1)" "seekg 0 (clear f2)" 0 0]
    seek_end_ok[OF assms(3)] seekg_clear[of 0 f2] assms(1,2)
  by (simp add: compareFiles_def)

lemma compareFiles_seek_failed:
  "length (content f1) < oc
     \<Longrightarrow> compareFiles (seekg_end (- int oc) (clear f1)) f2 = Inl SystemError"
  by (simp add: compareFiles_def compareLoop_short_read seek_end_failed blockSize_pos)

lemma outcome_simps [simp]:
  "outcome None = None" "outcome (Some (Inl e)) = Some (Inl e)"
  "outcome (Some (Inr (r, x))) = Some (Inr r)"
  by (simp_all add: outcome_def)

lemma refineLoop_not_found:
  "\<not> patternFound lastResult
     \<Longrightarrow> refineLoop best pat (f1, f2, result, lastResult) = Some (Inr (result, f1, f2))"
  by (subst refineLoop.simps) simp

lemma refineLoop_throw:
  "patternFound lastResult
     \<Longrightarrow> compareFiles (seekg_end (- int (overlapCount lastResult)) (clear f1))
           (seekg 0 (clear f2)) = Inl e
     \<Longrightarrow> refineLoop best pat (f1, f2, result, lastResult) = Some (Inl e)"
  by (subst refineLoop.simps) simp

lemma refineLoop_stop:
  "patternFound lastResult
     \<Longrightarrow> compareFiles (seekg_end (- int (overlapCount lastResult)) (clear f1))
           (seekg 0 (clear f2)) = Inr (d, g1, g2)
     \<Longrightarrow> result' = (if quota_double (lastResult\<lparr>bytesDiffering := d\<rparr>) > quota_double result
                     then lastResult\<lparr>bytesDiffering := d\<rparr> else result)
     \<Longrightarrow> quota_double result' > double_0_7 \<or> \<not> best
     \<Longrightarrow> refineLoop best pat (f1, f2, result, lastResult) = Some (Inr (result', g1, g2))"
  by (subst refineLoop.simps) (auto simp: Let_def)

lemma refineLoop_retry:
  "patternFound lastResult
     \<Longrightarrow> compareFiles (seekg_end (- int (overlapCount lastResult)) (clear f1))
           (seekg 0 (clear f2)) = Inr (d, g1, g2)
     \<Longrightarrow> result' = (if quota_double (lastResult\<lparr>bytesDiffering := d\<rparr>) > quota_double result
                     then lastResult\<lparr>bytesDiffering := d\<rparr> else result)
     \<Longrightarrow> \<not> (quota_double result' > double_0_7 \<or> \<not> best)
     \<Longrightarrow> refineLoop best pat (f1, f2, result, lastResult) =
           (case searchInFile g2 pat (matchPosition lastResult + 1) of
              None \<Rightarrow> None
            | Some (Inl e) \<Rightarrow> Some (Inl e)
            | Some (Inr (next, f)) \<Rightarrow> refineLoop best pat (g1, f, result', next))"
  by (subst refineLoop.simps) (auto simp: Let_def)

lemma refineLoop_spec:
  assumes "pat \<noteq> []" "length pat \<le> blockSize + 1"
    and "fault f1 = None" "fault f2 = None"
    and "ms = filter (occurs_at (content f2) pat) [i..<Suc (length (content f2))]"
    and "lastResult = search_result pat (case ms of [] \<Rightarrow> None | m # _ \<Rightarrow> Some m)"
  shows "outcome (refineLoop best pat (f1, f2, result, lastResult))
           = Some (refineCands best (content f1) (content f2) pat result ms)"
  using assms(3-)
proof (induction ms arbitrary: f1 f2 result i lastResult)
  case Nil
  then show ?case
    by (simp add: refineLoop_not_found search_result_def noMatch_def)
next
  case (Cons m ms)
  let ?A = "content f1" and ?B = "content f2"
  have last: "lastResult = \<lparr>patternFound = True, matchPosition = m, patternSize = length pat,
      bytesDiffering = 0\<rparr>"
    using Cons.prems(4) by (simp add: search_result_def)
  then have oc: "overlapCount lastResult = m + length pat" and found: "patternFound lastResult"
    and mp: "matchPosition lastResult + 1 = Suc m"
    by (simp_all add: overlapCount_def)
  from filter_upt_Cons[OF Cons.prems(3)[symmetric]]
  have ms: "ms = filter (occurs_at ?B pat) [Suc m..<Suc (length ?B)]" by simp
  show ?case
  proof (cases "length ?A < m + length pat")
    case True
    then have "length ?A < overlapCount lastResult" by (simp add: oc)
    from refineLoop_throw[OF found compareFiles_seek_failed[OF this]] True
    show ?thesis by simp
  next
    case False
    then have fits: "overlapCount lastResult \<le> length ?A" by (simp add: oc)
    from compareFiles_in_refine[OF Cons.prems(1,2) fits]
    obtain g1 g2 where cmp: "compareFiles (seekg_end (- int (overlapCount lastResult)) (clear f1))
            (seekg 0 (clear f2))
          = Inr (count_differences (drop (length ?A - overlapCount lastResult) ?A) ?B, g1, g2)"
      and g: "content g1 = ?A" "fault g1 = None" "content g2 = ?B" "fault g2 = None"
      by blast
    have last': "lastResult\<lparr>bytesDiffering :=
         count_differences (drop (length ?A - overlapCount lastResult) ?A) ?B\<rparr>
         = candidate ?A ?B pat m"
      by (simp add: last candidate_def overlapCount_def)
    define result' where "result' = (if quota_double (candidate ?A ?B pat m) > quota_double result
                          then candidate ?A ?B pat m else result)"
    have r': "result' = (if quota_double (lastResult\<lparr>bytesDiffering :=
         count_differences (drop (length ?A - overlapCount lastResult) ?A) ?B\<rparr>) > quota_double result
                     then lastResult\<lparr>bytesDiffering :=
         count_differences (drop (length ?A - overlapCount lastResult) ?A) ?B\<rparr> else result)"
      unfolding last' result'_def ..
    have spec: "refineCands best ?A ?B pat result (m # ms) =
        (if quota_double result' > double_0_7 \<or> \<not> best then Inr result'
         else refineCands best ?A ?B pat result' ms)"
      using False by (simp add: result'_def Let_def)
    show ?thesis
    proof (cases "quota_double result' > double_0_7 \<or> \<not> best")
      case True
      from refineLoop_stop[OF found cmp r' True] True show ?thesis
        unfolding spec by simp
    next
      case False
      from searchInFile_correct[OF assms(1,2) g(4), of "Suc m"]
      obtain f where srch: "searchInFile g2 pat (Suc m)
              = Some (Inr (search_result pat (memSearch ?B pat (Suc m)), f))"
        and f: "content f = ?B" "fault f = None" using g(3) by auto
      have nxt: "memSearch ?B pat (Suc m) = (case ms of [] \<Rightarrow> None | m # _ \<Rightarrow> Some m)"
        by (simp add: memSearch_filter ms)
      have "outcome (refineLoop best pat (g1, f, result', search_result pat (memSearch ?B pat (Suc m))))
           = Some (refineCands best (content g1) (content f) pat result' ms)"
        by (rule Cons.IH[OF g(2) f(2) _ ]) (simp_all add: f ms nxt)
      moreover have "refineLoop best pat (f1, f2, result, lastResult)
         = refineLoop best pat (g1, f, result', search_result pat (memSearch ?B pat (Suc m)))"
        unfolding refineLoop_retry[OF found cmp r' False] mp srch by simp
      ultimately show ?thesis unfolding spec using False by (simp add: g f)
    qed
  qed
qed

lemma refine_spec:
  assumes "pat \<noteq> []" "length pat \<le> blockSize + 1" "fault f1 = None" "fault f2 = None"
  shows "outcome (refine best f1 f2 pat)
           = Some (refineCands best (content f1) (content f2) pat noMatch
                     (occurrences (content f2) pat))"
proof -
  from searchInFile_correct[OF assms(1,2,4), of 0]
  obtain f where srch: "searchInFile f2 pat 0
              = Some (Inr (search_result pat (memSearch (content f2) pat 0), f))"
    and f: "content f = content f2" "fault f = None" by auto
  have "outcome (refineLoop best pat (f1, f, noMatch, search_result pat (memSearch (content f2) pat 0)))
     = Some (refineCands best (content f1) (content f) pat noMatch (occurrences (content f2) pat))"
    by (rule refineLoop_spec[OF assms(1,2,3) f(2), of _ 0])
       (simp_all add: f occurrences_def memSearch_filter)
  then show ?thesis by (simp add: refine_def srch f)
qed


lemma outcome_Inr_iff: "outcome x = Some (Inr r) \<longleftrightarrow> (\<exists>y. x = Some (Inr (r, y)))"
  by (cases x) (auto simp: outcome_def map_sum_def split: sum.splits)

lemma outcome_Inl_iff: "outcome x = Some (Inl e) \<longleftrightarrow> x = Some (Inl e)"
  by (cases x) (auto simp: outcome_def map_sum_def split: sum.splits)

lemma outcome_None_iff: "outcome x = None \<longleftrightarrow> x = None"
  by (simp add: outcome_def)

lemma extractPattern_long:
  assumes "fault f1 = None" "20 \<le> length (content f1)"
  shows "\<exists>g. extractPattern f1 = Inr (drop (length (content f1) - 20) (content f1), g)
           \<and> content g = content f1 \<and> fault g = None"
  using assms seek_end_ok[of 20 f1]
  by (simp add: extractPattern_def rdbuf_rest_def hits_fault_def Let_def)

lemma extractPattern_short:
  assumes "fault f1 = None" "length (content f1) < 20"
  shows "\<exists>g. extractPattern f1 = Inr (drop (gpos f1) (content f1), g)
           \<and> content g = content f1 \<and> fault g = None"
  using assms
  by (simp add: extractPattern_def rdbuf_rest_def hits_fault_def Let_def seekg_end_def clear_def
      fail_def)

lemma processPair_spec:
  assumes "fault f1 = None" "fault f2 = None" "20 \<le> length (content f1)"
  shows "outcome (processPair best f1 f2)
           = Some (refineCands best (content f1) (content f2)
                     (drop (length (content f1) - 20) (content f1)) noMatch
                     (occurrences (content f2) (drop (length (content f1) - 20) (content f1))))"
proof -
  let ?pat = "drop (length (content f1) - 20) (content f1)"
  from extractPattern_long[OF assms(1,3)]
  obtain g where ex: "extractPattern f1 = Inr (?pat, g)" and g: "content g = content f1" "fault g = None"
    by blast
  have pat: "?pat \<noteq> []" "length ?pat \<le> blockSize + 1"
    using assms(3) by (auto simp: blockSize_def)
  from refine_spec[OF pat g(2) assms(2), of best] show ?thesis
    by (simp add: processPair_def ex g)
qed

lemma processPair_short_spec:
  assumes "fault f1 = None" "fault f2 = None" "length (content f1) < 20"
    "drop (gpos f1) (content f1) \<noteq> []"
  shows "outcome (processPair best f1 f2)
           = Some (refineCands best (content f1) (content f2)
                     (drop (gpos f1) (content f1)) noMatch
                     (occurrences (content f2) (drop (gpos f1) (content f1))))"
proof -
  let ?pat = "drop (gpos f1) (content f1)"
  from extractPattern_short[OF assms(1,3)]
  obtain g where ex: "extractPattern f1 = Inr (?pat, g)" and g: "content g = content f1" "fault g = None"
    by blast
  have pat: "length ?pat \<le> blockSize + 1"
    using assms(3) by (auto simp: blockSize_def)
  from refine_spec[OF assms(4) pat g(2) assms(2), of best] show ?thesis
    by (simp add: processPair_def ex g)
qed

lemma occurrences_first:
  "memSearch B pat 0 = Some m \<Longrightarrow> \<exists>ms. occurrences B pat = m # ms"
  by (auto simp: memSearch_filter occurrences_def split: list.splits)

lemma quota_noMatch [simp]: "quota noMatch = 0"
  by (simp add: quota_def noMatch_def)

lemma quota_exact:
  "0 < m + length pat \<Longrightarrow> count_differences (drop (length A - (m + length pat)) A) B = 0
     \<Longrightarrow> quota (candidate A B pat m) = 1"
proof -
  assume a: "0 < m + length pat"
    "count_differences (drop (length A - (m + length pat)) A) B = 0"
  then have "(of_nat (m + length pat) :: rat) \<noteq> 0" by (simp only: of_nat_eq_0_iff)
  with a show ?thesis
    by (simp add: quota_def candidate_def overlapCount_def size_t_sub_def del: of_nat_add)
qed

lemma quota_double_exact:
  "0 < m + length pat \<Longrightarrow> count_differences (drop (length A - (m + length pat)) A) B = 0
     \<Longrightarrow> quota_double (candidate A B pat m) = 1"
  by (rule quota_double_full) (simp_all add: candidate_def overlapCount_def)

lemma refineCands_first_exact:
  assumes "pat \<noteq> []" "m + length pat \<le> length A"
    "count_differences (drop (length A - (m + length pat)) A) B = 0"
  shows "refineCands best A B pat noMatch (m # ms)
           = Inr \<lparr>patternFound = True, matchPosition = m, patternSize = length pat,
                  bytesDiffering = 0\<rparr>"
proof -
  have "quota_double (candidate A B pat m) = 1" using assms by (intro quota_double_exact) auto
  then show ?thesis using assms(2,3) double_0_7_less_1 by (simp add: Let_def candidate_def)
qed

lemma processPair_first_exact:
  assumes "fault f1 = None" "fault f2 = None" "20 \<le> length (content f1)"
    and "memSearch (content f2) (drop (length (content f1) - 20) (content f1)) 0 = Some m"
    and "m + 20 \<le> length (content f1)"
    and "count_differences (drop (length (content f1) - (m + 20)) (content f1)) (content f2) = 0"
  shows "outcome (processPair best f1 f2)
           = Some (Inr \<lparr>patternFound = True, matchPosition = m, patternSize = 20,
                         bytesDiffering = 0\<rparr>)"
proof -
  let ?pat = "drop (length (content f1) - 20) (content f1)"
  have len: "length ?pat = 20" using assms(3) by simp
  then have ne: "?pat \<noteq> []" by auto
  from occurrences_first[OF assms(4)] obtain ms where
    occ: "occurrences (content f2) ?pat = m # ms" by blast
  show ?thesis
    unfolding processPair_spec[OF assms(1-3)] occ
    using refineCands_first_exact[OF ne, of m "content f1" "content f2" best ms] assms(5,6)
    by (simp add: len)
qed

section \<open>Occurrences that the refinement passes over\<close>

lemma refineCands_Cons_ok:
  assumes "\<not> length A < m + length pat"
  shows "refineCands best A B pat result (m # ms) =
     (if quota_double (if quota_double (candidate A B pat m) > quota_double result then candidate A B pat m else result)
           > double_0_7 \<or> \<not> best
      then Inr (if quota_double (candidate A B pat m) > quota_double result then candidate A B pat m else result)
      else refineCands best A B pat
             (if quota_double (candidate A B pat m) > quota_double result then candidate A B pat m else result) ms)"
  using assms by (simp add: Let_def)

lemma refineCands_skip_low:
  assumes "\<forall>m\<in>set pre. m + length pat \<le> length A \<and> quota_double (candidate A B pat m) \<le> double_0_7"
    "quota_double result \<le> double_0_7"
  shows "\<exists>result'. quota_double result' \<le> double_0_7 \<and>
           refineCands True A B pat result (pre @ rest) = refineCands True A B pat result' rest"
  using assms
proof (induction pre arbitrary: result)
  case Nil
  then show ?case by auto
next
  case (Cons m pre)
  let ?c = "candidate A B pat m"
  define result' where "result' = (if quota_double ?c > quota_double result then ?c else result)"
  have fits: "\<not> length A < m + length pat" using Cons.prems(1) by auto
  have low: "quota_double result' \<le> double_0_7" using Cons.prems by (auto simp: result'_def)
  have "refineCands True A B pat result ((m # pre) @ rest)
      = refineCands True A B pat result' (pre @ rest)"
    using refineCands_Cons_ok[OF fits, of True B result "pre @ rest", folded result'_def] low
    by simp
  moreover from Cons.IH[OF _ low] Cons.prems(1)
  obtain r'' where "quota_double r'' \<le> double_0_7"
    "refineCands True A B pat result' (pre @ rest) = refineCands True A B pat r'' rest"
    by auto
  ultimately show ?case by auto
qed

lemma refineCands_select_exact:
  assumes "\<forall>m\<in>set pre. m + length pat \<le> length A \<and> quota_double (candidate A B pat m) \<le> double_0_7"
    and "pat \<noteq> []" "m2 + length pat \<le> length A"
    and "count_differences (drop (length A - (m2 + length pat)) A) B = 0"
  shows "refineCands True A B pat noMatch (pre @ m2 # rest)
           = Inr \<lparr>patternFound = True, matchPosition = m2, patternSize = length pat,
                  bytesDiffering = 0\<rparr>"
proof -
  from refineCands_skip_low[OF assms(1), of noMatch "m2 # rest"] double_0_7_pos
  obtain result' where low: "quota_double result' \<le> double_0_7"
    and eq: "refineCands True A B pat noMatch (pre @ m2 # rest)
           = refineCands True A B pat result' (m2 # rest)"
    by auto
  have q: "quota_double (candidate A B pat m2) = 1" using assms(2,4) by (intro quota_double_exact) auto
  have fits: "\<not> length A < m2 + length pat" using assms(3) by simp
  have "refineCands True A B pat result' (m2 # rest) = Inr (candidate A B pat m2)"
    using refineCands_Cons_ok[OF fits, of True B result' rest] low q double_0_7_less_1 by simp
  then show ?thesis unfolding eq using assms(4) by (simp add: candidate_def)
qed

lemma refineCands_pass_over:
  assumes "\<forall>m\<in>set pre. best \<and> m + length pat \<le> length A \<and> quota_double (candidate A B pat m) \<le> double_0_7"
    and "pat \<noteq> []" "m2 + length pat \<le> length A"
    and "count_differences (drop (length A - (m2 + length pat)) A) B = 0"
  shows "refineCands best A B pat noMatch (pre @ m2 # rest)
           = Inr \<lparr>patternFound = True, matchPosition = m2, patternSize = length pat,
                  bytesDiffering = 0\<rparr>"
proof (cases pre)
  case Nil
  then show ?thesis using refineCands_first_exact[OF assms(2-4), of best rest] by simp
next
  case (Cons m pre')
  with assms(1) have "best" by simp
  with assms(1) refineCands_select_exact[OF _ assms(2-4), of pre rest] show ?thesis by simp
qed

lemma refineCands_stops_early:
  assumes "\<forall>m\<in>set pre. m + length pat \<le> length A \<and> quota_double (candidate A B pat m) \<le> double_0_7"
    and "quota_double result \<le> double_0_7"
    and "m1 + length pat \<le> length A" "double_0_7 < quota_double (candidate A B pat m1)"
  shows "refineCands True A B pat result (pre @ m1 # rest) = Inr (candidate A B pat m1)"
proof -
  from refineCands_skip_low[OF assms(1,2), of "m1 # rest"]
  obtain result' where low: "quota_double result' \<le> double_0_7"
    and eq: "refineCands True A B pat result (pre @ m1 # rest)
           = refineCands True A B pat result' (m1 # rest)"
    by auto
  have fits: "\<not> length A < m1 + length pat" using assms(3) by simp
  show ?thesis
    unfolding eq using refineCands_Cons_ok[OF fits, of True B result' rest] low assms(4) by simp
qed

lemma refineCands_first_only:
  assumes "m + length pat \<le> length A"
  shows "refineCands False A B pat noMatch (m # ms) = Inr noMatch
       \<or> refineCands False A B pat noMatch (m # ms) = Inr (candidate A B pat m)"
  using assms by (simp add: Let_def)

lemma occurrences_split:
  assumes "occurs_at B pat m"
  shows "occurrences B pat = filter (occurs_at B pat) [0..<m] @ m #
           filter (occurs_at B pat) [Suc m..<Suc (length B)]"
proof -
  from assms have m: "m < Suc (length B)" by (simp add: occurs_at_def)
  then have "[0..<m + (Suc (length B) - m)] = [0..<m] @ [m..<m + (Suc (length B) - m)]"
    by (intro upt_add_eq_append) simp
  with m have "[0..<Suc (length B)] = [0..<m] @ [m..<Suc (length B)]" by simp
  also have "[m..<Suc (length B)] = m # [Suc m..<Suc (length B)]"
    using m by (rule upt_conv_Cons)
  finally have "[0..<Suc (length B)] = [0..<m] @ m # [Suc m..<Suc (length B)]" .
  then show ?thesis using assms by (simp add: occurrences_def del: upt_Suc)
qed

section \<open>mergeFiles and main on two files\<close>

lemma mergeFiles_two:
  assumes "fs a = Some A" "fs b = Some B" "writable out" "A \<noteq> []" "out \<noteq> a" "out \<noteq> b"
  shows "mergeFiles fs writable [a, b] [r] out
           = Inr (Some (A @ (if patternFound r then drop (overlapCount r) B else B)))"
  using assms
  by (simp add: mergeFiles_def ifstream_open_def insert_rdbuf_def seekg_def fail_def Let_def)

lemma scanLoop_single:
  assumes "fs b = Some B" "fault file1 = None" "20 \<le> length (content file1)"
    and "outcome (processPair best file1 (ifstream_open B)) = Some (Inr r)"
  shows "scanLoop fs best file1 [b] [] = Some (Inr (Some [r]))"
proof -
  from extractPattern_long[OF assms(2,3)]
  obtain g where ex: "extractPattern file1 = Inr (drop (length (content file1) - 20) (content file1), g)"
    by blast
  from assms(4) obtain y where "processPair best file1 (ifstream_open B) = Some (Inr (r, y))"
    by (auto simp: outcome_Inr_iff)
  then show ?thesis using assms(1)
    by (cases y) (simp add: processPair_def ex)
qed

lemma main_two:
  assumes "fs a = Some A" "fs b = Some B" "writable outputName" "20 \<le> length A"
    and "decision = CHR ''y'' \<or> decision = CHR ''Y''"
    and "outcome (processPair best (ifstream_open A) (ifstream_open B)) = Some (Inr r)"
    and "outputName \<noteq> a" "outputName \<noteq> b"
  shows "main fs writable best outputName [a, b] decision
           = Some (Inr (0, Some (A @ (if patternFound r then drop (overlapCount r) B else B))))"
proof -
  have A: "A \<noteq> []" using assms(4) by auto
  have "scanLoop fs best (ifstream_open A) [b] [] = Some (Inr (Some [r]))"
    using assms(2,4,6) by (intro scanLoop_single[where fs=fs and b=b and B=B])
      (simp_all add: ifstream_open_def)
  then show ?thesis
    using assms(1,2,3,5,7,8) A
      mergeFiles_two[where fs=fs and a=a and b=b and A=A and B=B and writable=writable
        and out=outputName and r=r]
    by (auto simp: main_def)
qed

section \<open>Predecessors shorter than the fingerprint\<close>

lemma empty_pattern_first:
  "\<exists>f. searchInFile (ifstream_open [0, 1]) [] 0
    = Some (Inr (\<lparr>patternFound = True, matchPosition = 0, patternSize = 0, bytesDiffering = 0\<rparr>, f))
    \<and> content f = [0, 1] \<and> fault f = None"
  unfolding searchInFile_def searchInFile_blk_def
  apply (simp add: read_def good_def seekg_def clear_def fail_def hits_fault_def blockSize_def
     Let_def ifstream_open_def write_at_def)
  apply (subst searchLoop.simps)
  apply (simp add: read_def good_def fail_def stop_index_def size_t_sub_def write_at_def Let_def)
  done

lemma empty_pattern_retry:
  "fault f = None \<Longrightarrow> content f = [0, 1] \<Longrightarrow> searchInFile f [] 1 = None"
  unfolding searchInFile_def searchInFile_blk_def
  apply (simp add: read_def good_def seekg_def clear_def fail_def hits_fault_def blockSize_def
     Let_def write_at_def)
  apply (subst searchLoop.simps)
  apply (simp add: read_def good_def fail_def stop_index_def size_t_sub_def write_at_def Let_def
    searchLoop_empty_pattern_hangs)
  done

lemma extractPattern_empty:
  "\<exists>g. extractPattern (ifstream_open []) = Inr ([], g) \<and> content g = [] \<and> fault g = None"
  using extractPattern_short[of "ifstream_open []"] by (simp add: ifstream_open_def)

section \<open>The results of the search and compare phase\<close>

lemma quota_nonneg: "0 \<le> quota r"
  by (simp add: quota_def)

lemma quota_pos_found: "0 < quota r \<Longrightarrow> patternFound r \<and> 0 < overlapCount r"
  by (auto simp: quota_def split: if_splits)

lemma compareFiles_bound:
  assumes "compareFiles (seekg_end (- int oc) (clear f1)) f2 = Inr (d, g1, g2)"
  shows "d \<le> oc"
proof (cases "length (content f1) < oc")
  case True
  from compareFiles_seek_failed[OF this, of f2] assms show ?thesis by simp
next
  case False
  then have "oc \<le> length (content f1)" by simp
  from seek_end_ok(2,3)[OF this] compareLoop_bound[OF assms[unfolded compareFiles_def]]
  show ?thesis by simp
qed

lemma result_ok_update:
  assumes "result_ok result" "d \<le> overlapCount lastResult"
  shows "result_ok (if quota_double (lastResult\<lparr>bytesDiffering := d\<rparr>) > quota_double result
                    then lastResult\<lparr>bytesDiffering := d\<rparr> else result)"
proof (cases "quota_double (lastResult\<lparr>bytesDiffering := d\<rparr>) > quota_double result")
  case True
  with quota_double_nonneg[of result] have "0 < quota_double (lastResult\<lparr>bytesDiffering := d\<rparr>)" by simp
  from quota_double_pos_found[OF this] assms(2) True show ?thesis
    by (simp add: result_ok_def overlapCount_def)
next
  case False
  with assms(1) show ?thesis by simp
qed

lemma refineLoop_result_ok:
  "refineLoop best pat st = Some y \<Longrightarrow>
     result_ok (fst (snd (snd st))) \<longrightarrow>
       (case y of Inl e \<Rightarrow> True | Inr (r, g) \<Rightarrow> result_ok r)"
proof (induction rule: refineLoop.raw_induct[rotated 1, consumes 1])
  case (1 loop best pat st y)
  obtain f1 f2 result lastResult where st: "st = (f1, f2, result, lastResult)"
    by (cases st) auto
  show ?case
  proof
    assume ok: "result_ok (fst (snd (snd st)))"
    then have ok: "result_ok result" by (simp add: st)
    show "case y of Inl e \<Rightarrow> True | Inr (r, g) \<Rightarrow> result_ok r"
    proof (cases "patternFound lastResult")
      case False
      with 1(2) ok show ?thesis by (auto simp: st)
    next
      case found: True
      let ?cmp = "compareFiles (seekg_end (- int (overlapCount lastResult)) (clear f1))
                    (seekg 0 (clear f2))"
      show ?thesis
      proof (cases ?cmp)
        case (Inl e)
        with 1(2) found show ?thesis by (auto simp: st)
      next
        case (Inr x)
        obtain d g1 g2 where x: "x = (d, g1, g2)" by (cases x) auto
        from compareFiles_bound[OF Inr[unfolded x]] have d: "d \<le> overlapCount lastResult" .
        define result' where "result' = (if quota_double (lastResult\<lparr>bytesDiffering := d\<rparr>) > quota_double result
                    then lastResult\<lparr>bytesDiffering := d\<rparr> else result)"
        have ok': "result_ok result'" unfolding result'_def by (rule result_ok_update[OF ok d])
        have body: "(if quota_double result' > double_0_7 \<or> \<not> best then Some (Inr (result', g1, g2))
                      else
                        (case searchInFile g2 pat (matchPosition lastResult + 1) of
                           None \<Rightarrow> None
                         | Some (Inl e) \<Rightarrow> Some (Inl e)
                         | Some (Inr (next, f2'')) \<Rightarrow> loop best pat (g1, f2'', result', next)))
                = Some y"
          using 1(2) found unfolding result'_def st
          by (simp add: Inr x Let_def split: if_splits cong: if_cong)
        show ?thesis
        proof (cases "quota_double result' > double_0_7 \<or> \<not> best")
          case True
          with body ok' show ?thesis by auto
        next
          case False
          with body have b2: "(case searchInFile g2 pat (matchPosition lastResult + 1) of
                           None \<Rightarrow> None
                         | Some (Inl e) \<Rightarrow> Some (Inl e)
                         | Some (Inr (next, f2'')) \<Rightarrow> loop best pat (g1, f2'', result', next))
                = Some y" by simp
          show ?thesis
          proof (cases "searchInFile g2 pat (matchPosition lastResult + 1)")
            case None
            with b2 show ?thesis by simp
          next
            case (Some z)
            show ?thesis
            proof (cases z)
              case (Inl e)
              with b2 Some show ?thesis by auto
            next
              case (Inr w)
              obtain nxt f where w: "w = (nxt, f)" by (cases w) auto
              from b2 Some Inr w have "loop best pat (g1, f, result', nxt) = Some y" by simp
              from 1(1)[OF this] ok' show ?thesis by simp
            qed
          qed
        qed
      qed
    qed
  qed
qed

lemma result_ok_noMatch [simp]: "result_ok noMatch"
  by (simp add: result_ok_def noMatch_def)

lemma refine_result_ok:
  assumes "refine best f1 f2 pat = Some (Inr (r, g))"
  shows "result_ok r"
proof -
  from assms obtain lastResult f where
    "refineLoop best pat (f1, f, noMatch, lastResult) = Some (Inr (r, g))"
    by (auto simp: refine_def split: option.splits sum.splits)
  from refineLoop_result_ok[OF this] show ?thesis by simp
qed

lemma scanLoop_result_ok:
  "scanLoop fs best file1 names acc = Some (Inr (Some rs)) \<Longrightarrow> \<forall>r\<in>set acc. result_ok r
     \<Longrightarrow> \<forall>r\<in>set rs. result_ok r"
proof (induction names arbitrary: file1 acc)
  case Nil
  then show ?case by simp
next
  case (Cons name names)
  from Cons.prems(1) obtain pat f1 bytes result f1' f2 where
    "refine best f1 (ifstream_open bytes) pat = Some (Inr (result, f1', f2))"
    "scanLoop fs best f2 names (acc @ [result]) = Some (Inr (Some rs))"
    by (auto split: sum.splits option.splits prod.splits)
  from Cons.IH[OF this(2)] refine_result_ok[OF this(1)] Cons.prems(2) show ?case by simp
qed

lemma result_ok_facts:
  assumes "result_ok r"
  shows "bytesDiffering r \<le> overlapCount r"
    and "quota r = (if patternFound r
                    then (of_nat (overlapCount r) - of_nat (bytesDiffering r)) / of_nat (overlapCount r)
                    else 0)"
    and "0 \<le> quota r" and "quota r \<le> 1"
    and "patternFound r \<or> (matchPosition r = 0 \<and> patternSize r = 0 \<and> bytesDiffering r = 0)"
proof -
  show le: "bytesDiffering r \<le> overlapCount r"
    using assms by (auto simp: result_ok_def noMatch_def overlapCount_def split: if_splits)
  show q: "quota r = (if patternFound r
                    then (of_nat (overlapCount r) - of_nat (bytesDiffering r)) / of_nat (overlapCount r)
                    else 0)"
    using assms le by (auto simp: result_ok_def quota_def size_t_sub_def of_nat_diff split: if_splits)
  show "0 \<le> quota r" by (rule quota_nonneg)
  show "quota r \<le> 1"
  proof (cases "patternFound r")
    case True
    with assms have pos: "0 < overlapCount r" by (simp add: result_ok_def)
    have "(of_nat (overlapCount r) - of_nat (bytesDiffering r) :: rat) \<le> of_nat (overlapCount r)"
      by simp
    with pos True show ?thesis unfolding q by (simp add: divide_le_eq_1)
  next
    case False
    then show ?thesis by (simp add: quota_def)
  qed
  show "patternFound r \<or> (matchPosition r = 0 \<and> patternSize r = 0 \<and> bytesDiffering r = 0)"
    using assms by (auto simp: result_ok_def noMatch_def split: if_splits)
qed


lemma result_ok_double:
  assumes "result_ok r"
  shows "quota_double r = (if patternFound r
                           then double_div (double_of_nat (overlapCount r - bytesDiffering r))
                                  (double_of_nat (overlapCount r))
                           else 0)"
    and "0 \<le> quota_double r" and "quota_double r \<le> 1"
proof -
  from result_ok_facts(1)[OF assms] have le: "bytesDiffering r \<le> overlapCount r" .
  show "quota_double r = (if patternFound r
                           then double_div (double_of_nat (overlapCount r - bytesDiffering r))
                                  (double_of_nat (overlapCount r))
                           else 0)"
    using assms le by (auto simp: result_ok_def quota_double_def size_t_sub_def split: if_splits)
  show "0 \<le> quota_double r" by (rule quota_double_nonneg)
  show "quota_double r \<le> 1" using le by (rule quota_double_le_1)
qed

section \<open>The claims\<close>

text \<open>
  C1 (as stated). The claim lets the pattern be as long as the stream. A pattern longer
  than the rolling buffer of \<open>2 * blockSize = 8192\<close> bytes never fits into the searched
  range, so \<open>searchInFile\<close> reports "not found" for a stream of 8193 bytes and the pattern
  equal to it, which occurs at offset 0.
\<close>

theorem searchInFile_long_pattern_missed:
  "outcome (searchInFile (ifstream_open (replicate 8193 0)) (replicate 8193 0) 0)
     = Some (Inr noMatch)
   \<and> occurs_at (replicate 8193 (0::byte)) (replicate 8193 0) 0
   \<and> memSearch (replicate 8193 (0::byte)) (replicate 8193 0) 0 = Some 0"
proof -
  have "occurs_at (replicate 8193 (0::byte)) (replicate 8193 0) 0"
    by (simp add: occurs_at_def)
  then show ?thesis
    by (simp add: searchInFile_long_pattern ifstream_open_def blockSize_def memSearch_SomeI)
qed

text \<open>
  C1 (amended). For every block size \<open>bs \<ge> 1\<close>, every healthy stream, every start offset
  and every non-empty pattern of at most \<open>bs + 1\<close> bytes, the rolling-window search
  returns the result of the in-memory search \<open>memSearch\<close> from the start offset, whatever
  the uninitialised buffer holds: found with the earliest offset at or after the start
  offset where the pattern occurs and \<open>patternSize = |P|\<close>, not found when there is no
  such offset. \<open>searchInFile\<close> is the instance \<open>bs = blockSize = 4096\<close>, which covers the
  20-byte patterns of \<open>main\<close>.
\<close>

theorem searchInFile_refines_memSearch:
  assumes "pat \<noteq> []" "0 < bs" "length pat \<le> bs + 1" "length buf0 = 2 * bs"
    "fault file0 = None"
  shows "outcome (searchInFile_blk bs buf0 file0 pat pos)
           = Some (Inr (search_result pat (memSearch (content file0) pat pos)))
         \<and> (case memSearch (content file0) pat pos of
              Some m \<Rightarrow> pos \<le> m \<and> occurs_at (content file0) pat m \<and>
                        (\<forall>j. pos \<le> j \<and> j < m \<longrightarrow> \<not> occurs_at (content file0) pat j)
            | None \<Rightarrow> \<forall>j. pos \<le> j \<longrightarrow> \<not> occurs_at (content file0) pat j)"
proof -
  from searchInFile_blk_correct[OF assms, of pos]
  have "outcome (searchInFile_blk bs buf0 file0 pat pos)
           = Some (Inr (search_result pat (memSearch (content file0) pat pos)))"
    by (auto simp: outcome_def)
  moreover have "case memSearch (content file0) pat pos of
              Some m \<Rightarrow> pos \<le> m \<and> occurs_at (content file0) pat m \<and>
                        (\<forall>j. pos \<le> j \<and> j < m \<longrightarrow> \<not> occurs_at (content file0) pat j)
            | None \<Rightarrow> \<forall>j. pos \<le> j \<longrightarrow> \<not> occurs_at (content file0) pat j"
    using memSearch_Some[of "content file0" pat pos] memSearch_None[of "content file0" pat pos]
    by (auto split: option.splits)
  ultimately show ?thesis by simp
qed

theorem searchInFile_refines_memSearch_witness:
  "outcome (searchInFile (ifstream_open [1, 2, 3, 4, 5, 6, 7]) [6, 7] 0)
     = Some (Inr \<lparr>patternFound = True, matchPosition = 5, patternSize = 2, bytesDiffering = 0\<rparr>)
   \<and> occurs_at [1, 2, 3, 4, 5, 6, 7 :: byte] [6, 7] 5"
  using searchInFile_refines_memSearch[of "[6, 7]" blockSize "replicate (2 * blockSize) 0"
      "ifstream_open [1, 2, 3, 4, 5, 6, 7]" 0]
  by (simp add: searchInFile_def blockSize_def ifstream_open_def memSearch.simps occurs_at_def
      search_result_def)

text \<open>
  C2. The claim: the output is the concatenation, in file order, of every file from its cut
  offset. The code at a failing input: the inserter sets \<^verbatim>\<open>failbit\<close> on the output
  stream when a file contributes no byte (an empty file, or a successor that lies wholly
  inside the overlap), and every later file is then left out. With the files \<open>[1]\<close>,
  \<open>[]\<close>, \<open>[3]\<close> and no match the output is \<open>[1]\<close>, not \<open>[1, 3]\<close>; with \<open>[1, 2]\<close>,
  \<open>[1, 2]\<close>, \<open>[3]\<close> and the overlap of two bytes found for the first pair it is
  \<open>[1, 2]\<close>, not \<open>[1, 2, 3]\<close>.
\<close>

theorem mergeFiles_drops_files_after_an_empty_tail:
  "mergeFiles [''a'' \<mapsto> [1], ''b'' \<mapsto> [], ''c'' \<mapsto> [3]] any_path
       [''a'', ''b'', ''c''] [noMatch, noMatch] ''output.bin'' = Inr (Some [1])
   \<and> mergeFiles [''a'' \<mapsto> [1, 2], ''b'' \<mapsto> [1, 2], ''c'' \<mapsto> [3]] any_path
       [''a'', ''b'', ''c'']
       [\<lparr>patternFound = True, matchPosition = 0, patternSize = 2, bytesDiffering = 0\<rparr>, noMatch]
       ''output.bin'' = Inr (Some [1, 2])"
  by (simp add: mergeFiles_def any_path_def noMatch_def ifstream_open_def insert_rdbuf_def
      seekg_def fail_def overlapCount_def Let_def)

text \<open>
  C3 (as stated). With \<open>X = []\<close>, \<open>Y\<close> forty zero bytes and \<open>Z = [1]\<close> the fingerprint
  (twenty zero bytes) occurs in \<open>B = Y\<parallel>Z\<close> already at offset 0. The search takes that
  first occurrence, it compares equal, and the pair is reported with an overlap of 20
  bytes instead of \<open>k = 40\<close>; the merged file has sixty zero bytes before the 1, not forty.
\<close>

theorem periodic_overlap_cut_short:
  "main [''a'' \<mapsto> replicate 40 0, ''b'' \<mapsto> replicate 40 0 @ [1]] any_path False ''output.bin''
       [''a'', ''b''] CHR ''y''
     = Some (Inr (0, Some (replicate 60 0 @ [1])))
   \<and> outcome (processPair False (ifstream_open (replicate 40 0))
                (ifstream_open (replicate 40 0 @ [1])))
     = Some (Inr \<lparr>patternFound = True, matchPosition = 0, patternSize = 20, bytesDiffering = 0\<rparr>)
   \<and> replicate 60 0 @ [1] \<noteq> ([] @ replicate 40 0 @ [1 :: byte])"
proof -
  let ?A = "replicate 40 (0 :: byte)" and ?B = "replicate 40 (0 :: byte) @ [1]"
  have occ: "memSearch ?B (drop (length ?A - 20) ?A) 0 = Some 0"
    by (rule memSearch_SomeI) (simp_all add: occurs_at_def)
  have cd: "count_differences (drop (length ?A - (0 + 20)) ?A) ?B = 0"
    by (rule count_differences_zero) simp
  have pp: "outcome (processPair False (ifstream_open ?A) (ifstream_open ?B))
     = Some (Inr \<lparr>patternFound = True, matchPosition = 0, patternSize = 20, bytesDiffering = 0\<rparr>)"
    using occ cd
    by (intro processPair_first_exact) (simp_all add: ifstream_open_def)
  have "main [''a'' \<mapsto> ?A, ''b'' \<mapsto> ?B] any_path False ''output.bin'' [''a'', ''b''] CHR ''y''
     = Some (Inr (0, Some (?A @ drop 20 ?B)))"
    using main_two[where fs="[''a'' \<mapsto> ?A, ''b'' \<mapsto> ?B]" and a="''a''" and b="''b''"
        and A="?A" and B="?B" and writable=any_path and outputName="''output.bin''"
        and decision="CHR ''y''" and best=False, OF _ _ _ _ _ pp]
    by (simp add: any_path_def overlapCount_def)
  moreover have "?A @ drop 20 ?B = replicate 60 0 @ [1]"
    by (simp add: replicate_add[symmetric])
  moreover have "length (replicate 60 (0::byte) @ [1]) \<noteq> length ([] @ replicate 40 (0::byte) @ [1])"
    by simp
  then have "replicate 60 0 @ [1] \<noteq> ([] @ replicate 40 0 @ [1 :: byte])" by metis
  ultimately show ?thesis using pp by simp
qed

text \<open>
  C3 (amended). For \<open>A = X\<parallel>Y\<close> and \<open>B = Y\<parallel>Z\<close> with \<open>|Y| = k \<ge> 20\<close>, an output path
  that opens and is none of the two input paths, and the merge confirmed: \<open>main\<close> ends
  with status 0 and writes exactly \<open>X\<parallel>Y\<parallel>Z\<close>, and the pair's result is found with
  \<open>overlapCount = k\<close>, no differing byte and quality 1, if and only if every occurrence of
  the fingerprint (the last 20 bytes of \<open>Y\<close>) in \<open>B\<close> before offset \<open>k - 20\<close> is one that
  the refinement passes over: \<^verbatim>\<open>--best\<close> is given and the quality of that occurrence is at
  most 0.7. Without \<^verbatim>\<open>--best\<close> this says that the fingerprint does not occur in \<open>B\<close>
  before offset \<open>k - 20\<close>.
\<close>

theorem overlap_round_trip:
  assumes "fs a = Some (X @ Y)" "fs b = Some (Y @ Z)" "20 \<le> length Y"
    and "writable outputName" "outputName \<noteq> a" "outputName \<noteq> b"
    and "decision = CHR ''y'' \<or> decision = CHR ''Y''"
  shows "(\<forall>m<length Y - 20. occurs_at (Y @ Z) (drop (length Y - 20) Y) m \<longrightarrow>
            best \<and> quota_double (candidate (X @ Y) (Y @ Z) (drop (length Y - 20) Y) m) \<le> double_0_7)
     \<longleftrightarrow> (main fs writable best outputName [a, b] decision = Some (Inr (0, Some (X @ Y @ Z)))
          \<and> outcome (processPair best (ifstream_open (X @ Y)) (ifstream_open (Y @ Z)))
              = Some (Inr \<lparr>patternFound = True, matchPosition = length Y - 20, patternSize = 20,
                            bytesDiffering = 0\<rparr>)
          \<and> overlapCount \<lparr>patternFound = True, matchPosition = length Y - 20, patternSize = 20,
                            bytesDiffering = 0\<rparr> = length Y
          \<and> quota_double \<lparr>patternFound = True, matchPosition = length Y - 20, patternSize = 20,
                            bytesDiffering = 0\<rparr> = 1
          \<and> quota \<lparr>patternFound = True, matchPosition = length Y - 20, patternSize = 20,
                            bytesDiffering = 0\<rparr> = 1)"
    (is "?passed \<longleftrightarrow> ?round_trip")
proof -
  let ?A = "X @ Y" and ?B = "Y @ Z" and ?k = "length Y"
  let ?pat = "drop (length Y - 20) Y"
  let ?r = "\<lparr>patternFound = True, matchPosition = length Y - 20, patternSize = 20,
                         bytesDiffering = 0\<rparr>"
  let ?occ = "occurs_at ?B ?pat"
  have len: "length ?pat = 20" using assms(3) by simp
  then have ne: "?pat \<noteq> []" by auto
  have pat: "drop (length ?A - 20) ?A = ?pat" using assms(3) by simp
  have spec: "outcome (processPair best (ifstream_open ?A) (ifstream_open ?B))
      = Some (refineCands best ?A ?B ?pat noMatch (occurrences ?B ?pat))"
    using processPair_spec[of "ifstream_open ?A" "ifstream_open ?B" best] assms(3)
    by (simp add: ifstream_open_def)
  have true_occ: "?occ (?k - 20)" using assms(3) by (simp add: occurs_at_def)
  have fits: "m + length ?pat \<le> length ?A" if "m \<le> ?k - 20" for m
    using that assms(3) by simp
  have oc: "overlapCount ?r = ?k" using assms(3) by (simp add: overlapCount_def)
  have "?k \<noteq> 0" using assms(3) by auto
  then have "(of_nat ?k :: rat) \<noteq> 0" by simp
  then have q: "quota ?r = 1" using assms(3) by (simp add: quota_def oc size_t_sub_def)
  have qd: "quota_double ?r = 1" using \<open>?k \<noteq> 0\<close> by (intro quota_double_full) (simp_all add: oc)
  show ?thesis
  proof
    assume passed: ?passed
    have pre: "\<forall>m\<in>set (filter ?occ [0..<?k - 20]).
        best \<and> m + length ?pat \<le> length ?A \<and> quota_double (candidate ?A ?B ?pat m) \<le> double_0_7"
      using passed fits by auto
    have cd: "count_differences (drop (length ?A - (?k - 20 + length ?pat)) ?A) ?B = 0"
      using assms(3) by (simp add: len count_differences_zero)
    have "refineCands best ?A ?B ?pat noMatch (occurrences ?B ?pat) = Inr ?r"
      unfolding occurrences_split[OF true_occ]
      using refineCands_pass_over[OF pre ne fits[OF order_refl] cd] assms(3) by simp
    with spec have pp: "outcome (processPair best (ifstream_open ?A) (ifstream_open ?B))
        = Some (Inr ?r)" by simp
    have "main fs writable best outputName [a, b] decision
        = Some (Inr (0, Some (?A @ (if patternFound ?r then drop (overlapCount ?r) ?B else ?B))))"
      using assms by (intro main_two pp) simp_all
    then show ?round_trip using pp oc q qd by simp
  next
    assume rt: ?round_trip
    with spec have res: "refineCands best ?A ?B ?pat noMatch (occurrences ?B ?pat) = Inr ?r"
      by simp
    show ?passed
    proof (rule ccontr)
      assume "\<not> ?passed"
      then have ex: "\<exists>m. m < ?k - 20 \<and> ?occ m \<and>
          \<not> (best \<and> quota_double (candidate ?A ?B ?pat m) \<le> double_0_7)" by auto
      define m1 where "m1 = (LEAST m. m < ?k - 20 \<and> ?occ m \<and>
          \<not> (best \<and> quota_double (candidate ?A ?B ?pat m) \<le> double_0_7))"
      from LeastI_ex[OF ex] have m1: "m1 < ?k - 20" "?occ m1"
        "\<not> (best \<and> quota_double (candidate ?A ?B ?pat m1) \<le> double_0_7)"
        unfolding m1_def by auto
      have least: "best \<and> quota_double (candidate ?A ?B ?pat m) \<le> double_0_7"
        if "m < m1" "?occ m" for m
      proof (rule ccontr)
        assume "\<not> ?thesis"
        with that m1(1) have "m1 \<le> m" unfolding m1_def by (intro Least_le) auto
        with that show False by simp
      qed
      have fits1: "m1 + length ?pat \<le> length ?A" using fits[of m1] m1(1) by simp
      show False
      proof (cases best)
        case True
        have pre: "\<forall>m\<in>set (filter ?occ [0..<m1]).
            m + length ?pat \<le> length ?A \<and> quota_double (candidate ?A ?B ?pat m) \<le> double_0_7"
          using least fits m1(1) by auto
        have "refineCands True ?A ?B ?pat noMatch (occurrences ?B ?pat)
            = Inr (candidate ?A ?B ?pat m1)"
          unfolding occurrences_split[OF m1(2)]
          using m1(3) True double_0_7_pos
          by (intro refineCands_stops_early[OF pre _ fits1]) simp_all
        with res True have "candidate ?A ?B ?pat m1 = ?r" by simp
        then have "m1 = ?k - 20" by (simp add: candidate_def)
        with m1(1) show False by simp
      next
        case False
        with least have "filter ?occ [0..<m1] = []" by (auto simp: filter_empty_conv)
        then have "occurrences ?B ?pat = m1 # filter ?occ [Suc m1..<Suc (length ?B)]"
          using occurrences_split[OF m1(2)] by simp
        with res False refineCands_first_only[OF fits1, of ?B "filter ?occ [Suc m1..<Suc (length ?B)]"]
        have "noMatch = ?r \<or> candidate ?A ?B ?pat m1 = ?r" by auto
        then have "m1 = ?k - 20" by (auto simp: candidate_def noMatch_def)
        with m1(1) show False by simp
      qed
    qed
  qed
qed

theorem overlap_round_trip_witness:
  "main [''a'' \<mapsto> [8] @ [0, 0, 0, 0, 0, 0, 0, 0, 0,
                          1, 2, 3, 4, 5, 6, 7, 8, 9, 10, 11, 12, 13, 14, 15, 16, 17, 18, 19, 20,
                          1, 2, 3, 4, 5, 6, 7, 8, 9, 10, 11, 12, 13, 14, 15, 16, 17, 18, 19, 20],
         ''b'' \<mapsto> [0, 0, 0, 0, 0, 0, 0, 0, 0,
                    1, 2, 3, 4, 5, 6, 7, 8, 9, 10, 11, 12, 13, 14, 15, 16, 17, 18, 19, 20,
                    1, 2, 3, 4, 5, 6, 7, 8, 9, 10, 11, 12, 13, 14, 15, 16, 17, 18, 19, 20] @ [7]]
      any_path True ''output.bin'' [''a'', ''b''] CHR ''y''
     = Some (Inr (0, Some ([8] @ [0, 0, 0, 0, 0, 0, 0, 0, 0,
                    1, 2, 3, 4, 5, 6, 7, 8, 9, 10, 11, 12, 13, 14, 15, 16, 17, 18, 19, 20,
                    1, 2, 3, 4, 5, 6, 7, 8, 9, 10, 11, 12, 13, 14, 15, 16, 17, 18, 19, 20] @ [7])))
   \<and> occurs_at ([0, 0, 0, 0, 0, 0, 0, 0, 0,
                 1, 2, 3, 4, 5, 6, 7, 8, 9, 10, 11, 12, 13, 14, 15, 16, 17, 18, 19, 20,
                 1, 2, 3, 4, 5, 6, 7, 8, 9, 10, 11, 12, 13, 14, 15, 16, 17, 18, 19, 20] @ [7 :: byte])
        [1, 2, 3, 4, 5, 6, 7, 8, 9, 10, 11, 12, 13, 14, 15, 16, 17, 18, 19, 20] 9
   \<and> quota_double (candidate
        ([8] @ [0, 0, 0, 0, 0, 0, 0, 0, 0,
                1, 2, 3, 4, 5, 6, 7, 8, 9, 10, 11, 12, 13, 14, 15, 16, 17, 18, 19, 20,
                1, 2, 3, 4, 5, 6, 7, 8, 9, 10, 11, 12, 13, 14, 15, 16, 17, 18, 19, 20])
        ([0, 0, 0, 0, 0, 0, 0, 0, 0,
          1, 2, 3, 4, 5, 6, 7, 8, 9, 10, 11, 12, 13, 14, 15, 16, 17, 18, 19, 20,
          1, 2, 3, 4, 5, 6, 7, 8, 9, 10, 11, 12, 13, 14, 15, 16, 17, 18, 19, 20] @ [7])
        [1, 2, 3, 4, 5, 6, 7, 8, 9, 10, 11, 12, 13, 14, 15, 16, 17, 18, 19, 20] 9)
       = 1552965388748447 / 2251799813685248
   \<and> (1552965388748447 / 2251799813685248 :: rat) \<le> double_0_7"
proof -
  let ?F = "[1, 2, 3, 4, 5, 6, 7, 8, 9, 10, 11, 12, 13, 14, 15, 16, 17, 18, 19, 20 :: byte]"
  let ?Y = "[0, 0, 0, 0, 0, 0, 0, 0, 0,
             1, 2, 3, 4, 5, 6, 7, 8, 9, 10, 11, 12, 13, 14, 15, 16, 17, 18, 19, 20,
             1, 2, 3, 4, 5, 6, 7, 8, 9, 10, 11, 12, 13, 14, 15, 16, 17, 18, 19, 20 :: byte]"
  let ?A = "[8 :: byte] @ ?Y"
  let ?B = "?Y @ [7 :: byte]"
  have Y: "length ?Y - 20 = 29" "drop (length ?Y - 20) ?Y = ?F" by simp_all
  have early: "filter (occurs_at ?B ?F) [0..<29] = [9]"
    by (simp add: occurs_at_def upt_rec)
  have q: "quota_double (candidate ?A ?B ?F 9) = 1552965388748447 / 2251799813685248"
    by (simp add: candidate_def quota_double_def overlapCount_def size_t_sub_def
        count_differences_def double_of_nat_def double_div_def bitlength.simps
        round_half_even_def Let_def)
  have low: "(1552965388748447 / 2251799813685248 :: rat) \<le> double_0_7"
    by (simp add: double_0_7_def)
  have occ: "occurs_at ?B ?F 9" by (simp add: occurs_at_def)
  have passed: "\<forall>m<length ?Y - 20. occurs_at ?B (drop (length ?Y - 20) ?Y) m \<longrightarrow>
      True \<and> quota_double (candidate ?A ?B (drop (length ?Y - 20) ?Y) m) \<le> double_0_7"
  proof (intro allI impI)
    fix m :: nat
    assume "m < length ?Y - 20" "occurs_at ?B (drop (length ?Y - 20) ?Y) m"
    then have "m < 29" "occurs_at ?B ?F m" by simp_all
    then have "m \<in> set (filter (occurs_at ?B ?F) [0..<29])" by simp
    then have "m = 9" unfolding early by simp
    then have "quota_double (candidate ?A ?B ?F m) \<le> double_0_7" using q low by simp
    then show "True \<and> quota_double (candidate ?A ?B (drop (length ?Y - 20) ?Y) m) \<le> double_0_7"
      by simp
  qed
  from overlap_round_trip[where fs="[''a'' \<mapsto> ?A, ''b'' \<mapsto> ?B]" and a="''a''" and b="''b''"
      and X="[8]" and Y="?Y" and Z="[7]" and writable=any_path and outputName="''output.bin''"
      and decision="CHR ''y''" and best=True, THEN iffD1, OF _ _ _ _ _ _ _ passed]
  have "main [''a'' \<mapsto> ?A, ''b'' \<mapsto> ?B] any_path True ''output.bin'' [''a'', ''b''] CHR ''y''
     = Some (Inr (0, Some ([8] @ ?Y @ [7])))"
    by (simp add: any_path_def)
  with occ q low show ?thesis by simp
qed

text \<open>
  C5. The claim: a predecessor shorter than 20 bytes never makes the pair crash or hang,
  and the pair is reported as "not found". The code at three failing inputs: the seek to
  20 bytes before the end fails and the pattern becomes whatever lies between the get
  position and the end of the file. An empty predecessor with an empty successor makes
  the search loop forever; the predecessor \<open>[1]\<close> with the successor \<open>[0, 1]\<close> ends in
  the exception of \<open>compareFiles\<close>, which nothing catches; the predecessor \<open>[1, 2]\<close>
  with the successor \<open>[1, 2]\<close> is reported as found.
\<close>

theorem short_predecessor_mishandled:
  "processPair False (ifstream_open []) (ifstream_open []) = None
   \<and> outcome (processPair False (ifstream_open [1]) (ifstream_open [0, 1])) = Some (Inl SystemError)
   \<and> outcome (processPair False (ifstream_open [1, 2]) (ifstream_open [1, 2]))
       = Some (Inr \<lparr>patternFound = True, matchPosition = 0, patternSize = 2, bytesDiffering = 0\<rparr>)"
proof -
  from extractPattern_empty obtain g where
    ex: "extractPattern (ifstream_open []) = Inr ([], g)" by blast
  have "searchInFile (ifstream_open []) [] 0 = None"
    by (rule searchInFile_empty_empty) (simp_all add: ifstream_open_def)
  then have hang: "processPair False (ifstream_open []) (ifstream_open []) = None"
    by (simp add: processPair_def ex refine_def)
  have crash: "outcome (processPair False (ifstream_open [1]) (ifstream_open [0, 1]))
      = Some (Inl SystemError)"
    by (subst processPair_short_spec)
       (simp_all add: ifstream_open_def occurrences_def occurs_at_def)
  have occ: "occurrences [1, 2 :: byte] [1, 2] = [0]"
    by (simp add: occurrences_def occurs_at_def)
  have "refineCands False [1, 2 :: byte] [1, 2] [1, 2] noMatch [0]
     = Inr \<lparr>patternFound = True, matchPosition = 0, patternSize = length [1, 2 :: byte],
              bytesDiffering = 0\<rparr>"
    by (rule refineCands_first_exact) simp_all
  then have found: "outcome (processPair False (ifstream_open [1, 2]) (ifstream_open [1, 2]))
       = Some (Inr \<lparr>patternFound = True, matchPosition = 0, patternSize = 2, bytesDiffering = 0\<rparr>)"
    by (subst processPair_short_spec) (simp_all add: ifstream_open_def occ)
  from hang crash found show ?thesis by simp
qed

text \<open>
  C6. Every result that the scan of \<open>main\<close> pushes (for any files, healthy or not, with or
  without \<^verbatim>\<open>--best\<close>) has \<open>bytesDiffering \<le> overlapCount = matchPosition + patternSize\<close>;
  its quality is \<open>(overlapCount - bytesDiffering) / overlapCount\<close> with a positive
  \<open>overlapCount\<close> when found and 0 when not found, so it lies between 0 and 1; a result
  that is not found has \<open>matchPosition = patternSize = bytesDiffering = 0\<close>. The
  \<^verbatim>\<open>double\<close> that \<^verbatim>\<open>quota()\<close> returns is that quotient (the subtraction does not wrap)
  rounded to binary64, and it lies between 0 and 1 as well.
\<close>

theorem pushed_results_invariant:
  "scanLoop fs best file1 names [] = Some (Inr (Some rs)) \<Longrightarrow>
     \<forall>r\<in>set rs.
       bytesDiffering r \<le> overlapCount r \<and>
       overlapCount r = matchPosition r + patternSize r \<and>
       quota r = (if patternFound r
                  then (of_nat (overlapCount r) - of_nat (bytesDiffering r)) / of_nat (overlapCount r)
                  else 0) \<and>
       0 \<le> quota r \<and> quota r \<le> 1 \<and>
       (patternFound r \<longrightarrow> 0 < overlapCount r) \<and>
       (\<not> patternFound r \<longrightarrow>
          matchPosition r = 0 \<and> patternSize r = 0 \<and> bytesDiffering r = 0) \<and>
       quota_double r = (if patternFound r
                         then double_div (double_of_nat (overlapCount r - bytesDiffering r))
                                (double_of_nat (overlapCount r))
                         else 0) \<and>
       0 \<le> quota_double r \<and> quota_double r \<le> 1"
proof
  fix r
  assume "scanLoop fs best file1 names [] = Some (Inr (Some rs))" "r \<in> set rs"
  with scanLoop_result_ok[of fs best file1 names "[]" rs] have ok: "result_ok r" by simp
  from result_ok_facts[OF ok] result_ok_double[OF ok] ok
  show "bytesDiffering r \<le> overlapCount r \<and>
       overlapCount r = matchPosition r + patternSize r \<and>
       quota r = (if patternFound r
                  then (of_nat (overlapCount r) - of_nat (bytesDiffering r)) / of_nat (overlapCount r)
                  else 0) \<and>
       0 \<le> quota r \<and> quota r \<le> 1 \<and>
       (patternFound r \<longrightarrow> 0 < overlapCount r) \<and>
       (\<not> patternFound r \<longrightarrow>
          matchPosition r = 0 \<and> patternSize r = 0 \<and> bytesDiffering r = 0) \<and>
       quota_double r = (if patternFound r
                         then double_div (double_of_nat (overlapCount r - bytesDiffering r))
                                (double_of_nat (overlapCount r))
                         else 0) \<and>
       0 \<le> quota_double r \<and> quota_double r \<le> 1"
    by (auto simp: overlapCount_def result_ok_def)
qed

theorem pushed_results_invariant_witness:
  "scanLoop [''b'' \<mapsto> [5, 1, 2, 3, 4, 5, 6, 7, 8, 9, 10, 11, 12, 13, 14, 15, 16, 17, 18, 19, 20, 7]]
      False
      (ifstream_open [8, 1, 2, 3, 4, 5, 6, 7, 8, 9, 10, 11, 12, 13, 14, 15, 16, 17, 18, 19, 20])
      [''b''] []
     = Some (Inr (Some [\<lparr>patternFound = True, matchPosition = 1, patternSize = 20,
                          bytesDiffering = 1\<rparr>]))
   \<and> quota \<lparr>patternFound = True, matchPosition = 1, patternSize = 20, bytesDiffering = 1\<rparr>
       = (of_nat 21 - of_nat 1) / of_nat 21
   \<and> quota \<lparr>patternFound = True, matchPosition = 1, patternSize = 20, bytesDiffering = 1\<rparr> \<le> 1"
proof -
  let ?A = "[8, 1, 2, 3, 4, 5, 6, 7, 8, 9, 10, 11, 12, 13, 14, 15, 16, 17, 18, 19, 20 :: byte]"
  let ?B = "[5, 1, 2, 3, 4, 5, 6, 7, 8, 9, 10, 11, 12, 13, 14, 15, 16, 17, 18, 19, 20, 7 :: byte]"
  let ?r = "\<lparr>patternFound = True, matchPosition = 1, patternSize = 20, bytesDiffering = 1\<rparr>"
  have occ: "occurrences ?B (drop (length ?A - 20) ?A) = [1]"
    by (simp add: occurrences_def occurs_at_def)
  have cand: "candidate ?A ?B (drop (length ?A - 20) ?A) 1 = ?r"
    by (simp add: candidate_def count_differences_def)
  have q: "quota ?r = 20 / 21"
    by (simp add: quota_def overlapCount_def size_t_sub_def)
  have qd: "quota_double ?r = 4289142502257615 / 4503599627370496"
    by (simp add: quota_double_def overlapCount_def size_t_sub_def double_of_nat_def
        double_div_def bitlength.simps round_half_even_def Let_def)
  have "outcome (processPair False (ifstream_open ?A) (ifstream_open ?B)) = Some (Inr ?r)"
    unfolding processPair_spec[of "ifstream_open ?A" "ifstream_open ?B" False,
        unfolded ifstream_open_def, simplified, folded ifstream_open_def]
    using occ cand qd by (simp add: Let_def)
  then have scan: "scanLoop [''b'' \<mapsto> ?B] False (ifstream_open ?A) [''b''] []
      = Some (Inr (Some [?r]))"
    by (intro scanLoop_single[where B = ?B]) (simp_all add: ifstream_open_def)
  from pushed_results_invariant[OF scan] scan show ?thesis
    by (simp add: overlapCount_def)
qed

text \<open>
  C8. The claim: when the output or an input cannot be opened during the assembly, the
  run is fatal and the exit status is not zero. The code at a failing input: with an
  output path that does not open, \<open>mergeFiles\<close> returns and \<open>main\<close> ends with status 0;
  with an input that does not open, \<open>mergeFiles\<close> returns with the bytes written so far
  left in the output file.
\<close>

theorem main_exits_zero_when_output_fails:
  "main [''a'' \<mapsto> [1, 2, 3, 4, 5, 6, 7, 8, 9, 10, 11, 12, 13, 14, 15, 16, 17, 18, 19, 20],
         ''b'' \<mapsto> [1, 2, 3, 4, 5, 6, 7, 8, 9, 10, 11, 12, 13, 14, 15, 16, 17, 18, 19, 20, 7]]
      no_path False ''output.bin'' [''a'', ''b''] CHR ''y''
     = Some (Inr (0, None))
   \<and> mergeFiles [''a'' \<mapsto> [1]] any_path [''a'', ''b''] [noMatch] ''output.bin''
     = Inr (Some [1])"
proof -
  let ?A = "[1, 2, 3, 4, 5, 6, 7, 8, 9, 10, 11, 12, 13, 14, 15, 16, 17, 18, 19, 20 :: byte]"
  let ?B = "[1, 2, 3, 4, 5, 6, 7, 8, 9, 10, 11, 12, 13, 14, 15, 16, 17, 18, 19, 20, 7 :: byte]"
  let ?fs = "[''a'' \<mapsto> ?A, ''b'' \<mapsto> ?B]"
  have "outcome (processPair False (ifstream_open ?A) (ifstream_open ?B))
      = Some (Inr \<lparr>patternFound = True, matchPosition = 0, patternSize = 20, bytesDiffering = 0\<rparr>)"
    by (rule processPair_first_exact)
       (simp_all add: ifstream_open_def memSearch.simps occurs_at_def count_differences_def)
  then have "scanLoop ?fs False (ifstream_open ?A) [''b''] []
      = Some (Inr (Some [\<lparr>patternFound = True, matchPosition = 0, patternSize = 20,
                            bytesDiffering = 0\<rparr>]))"
    by (intro scanLoop_single[where B = ?B]) (simp_all add: ifstream_open_def)
  then have "main ?fs no_path False ''output.bin'' [''a'', ''b''] CHR ''y'' = Some (Inr (0, None))"
    by (simp add: main_def mergeFiles_def no_path_def)
  moreover have "mergeFiles [''a'' \<mapsto> [1]] any_path [''a'', ''b''] [noMatch] ''output.bin''
     = Inr (Some [1])"
    by (simp add: mergeFiles_def any_path_def ifstream_open_def insert_rdbuf_def)
  ultimately show ?thesis by simp
qed

text \<open>
  C9. The claim: the loop that looks for the best match ends for every stream and every
  pattern taken from a predecessor. The code at a failing input: an empty first file
  gives the empty pattern; with \<^verbatim>\<open>--best\<close> and the successor \<open>[0, 1]\<close> the first search
  finds it at offset 0 with quality 0, and the retry from offset 1 never returns.
\<close>

theorem refinement_retry_never_returns:
  "processPair True (ifstream_open []) (ifstream_open [0, 1]) = None"
proof -
  from extractPattern_empty obtain g where
    ex: "extractPattern (ifstream_open []) = Inr ([], g)" and g: "content g = []" "fault g = None"
    by blast
  let ?r0 = "\<lparr>patternFound = True, matchPosition = 0, patternSize = 0, bytesDiffering = 0\<rparr>"
  from empty_pattern_first obtain f where
    s0: "searchInFile (ifstream_open [0, 1]) [] 0 = Some (Inr (?r0, f))"
    and f: "content f = [0, 1]" "fault f = None" by blast
  have oc: "overlapCount ?r0 = 0" by (simp add: overlapCount_def)
  from compareFiles_in_refine[OF g(2) f(2), of 0]
  obtain g1 g2 where cmp: "compareFiles (seekg_end (- int (overlapCount ?r0)) (clear g)) (seekg 0 (clear f))
       = Inr (0, g1, g2)" and g2: "content g2 = [0, 1]" "fault g2 = None"
    by (auto simp: g f oc count_differences_def)
  have "refineLoop True [] (g, f, noMatch, ?r0) =
      (case searchInFile g2 [] (matchPosition ?r0 + 1) of
              None \<Rightarrow> None
            | Some (Inl e) \<Rightarrow> Some (Inl e)
            | Some (Inr (next, f')) \<Rightarrow> refineLoop True [] (g1, f', noMatch, next))"
    by (rule refineLoop_retry[OF _ cmp])
       (simp_all add: quota_double_def overlapCount_def noMatch_def double_0_7_def)
  moreover have "searchInFile g2 [] (matchPosition ?r0 + 1) = None"
    using empty_pattern_retry[OF g2(2,1)] by simp
  ultimately have "refineLoop True [] (g, f, noMatch, ?r0) = None"
    by (simp only: option.case)
  then show ?thesis by (simp add: processPair_def ex refine_def s0)
qed

text \<open>
  C10. For every stream (healthy or not, in any state), every start offset and every
  non-empty pattern the scan of \<open>searchInFile\<close> ends with a result or with the
  exception; and the loop is left with "not found" as soon as the stream has failed and
  the fill level of the rolling buffer is below the length of the pattern.
\<close>

theorem searchInFile_scan_terminates:
  "pat \<noteq> [] \<Longrightarrow>
     (\<exists>y. searchInFile file0 pat pos = Some y) \<and>
     (\<exists>y. searchLoop blockSize pat st = Some y) \<and>
     (fail (fstream st) \<and> realBufferSize st < length pat
        \<longrightarrow> searchLoop blockSize pat st = Some (Inr (noMatch, fstream st)))"
  using searchInFile_terminates[of pat file0 pos] searchLoop_exit[of pat st blockSize]
    searchLoop_terminates[of pat blockSize st]
  by (auto simp: enters_def blockSize_def)

theorem searchInFile_scan_terminates_witness:
  "(\<exists>y. searchInFile (ifstream_open [1, 2, 3]) [2, 3] 1 = Some y) \<and>
   (\<exists>y. searchLoop blockSize [2, 3]
          \<lparr>fstream = (ifstream_open [1, 2, 3])\<lparr>gpos := 3, eofbit := True, failbit := True\<rparr>,
           buffer = [], bytesReadPreviously = 0, realBufferSize = 1, position = 3\<rparr> = Some y) \<and>
   searchLoop blockSize [2, 3]
     \<lparr>fstream = (ifstream_open [1, 2, 3])\<lparr>gpos := 3, eofbit := True, failbit := True\<rparr>,
      buffer = [], bytesReadPreviously = 0, realBufferSize = 1, position = 3\<rparr>
   = Some (Inr (noMatch, (ifstream_open [1, 2, 3])\<lparr>gpos := 3, eofbit := True, failbit := True\<rparr>))"
  using searchInFile_scan_terminates[of "[2, 3]" "ifstream_open [1, 2, 3]" 1
      "\<lparr>fstream = (ifstream_open [1, 2, 3])\<lparr>gpos := 3, eofbit := True, failbit := True\<rparr>,
        buffer = [], bytesReadPreviously = 0, realBufferSize = 1, position = 3\<rparr>"]
  by (simp add: fail_def ifstream_open_def)

end
